theory Spec2Isabelle
  imports Complex_Main
begin

section \<open>JavaScript strings\<close>

text \<open>
  A JavaScript string is a sequence of UTF-16 code units and \<open>length\<close> counts code units.
  A code unit is modelled by its number, so that the Korean narration text of the
  application is covered as well as ASCII.
\<close>

type_synonym jschar = nat
type_synonym jsstring = "jschar list"

definition js :: "string \<Rightarrow> jsstring" where
  \<comment> \<open>An ASCII literal as a JavaScript string.\<close>
  "js s = map of_char s"

definition is_ws :: "jschar \<Rightarrow> bool" where
  \<comment> \<open>The class \<open>\s\<close> of a regular expression, which is also the set of code units that
      \<open>String.prototype.trim\<close> removes: WhiteSpace and LineTerminator of ECMAScript.\<close>
  "is_ws c \<longleftrightarrow>
     c = 9 \<or> c = 10 \<or> c = 11 \<or> c = 12 \<or> c = 13 \<or> c = 32 \<or> c = 160 \<or> c = 5760 \<or>
     (8192 \<le> c \<and> c \<le> 8202) \<or> c = 8232 \<or> c = 8233 \<or> c = 8239 \<or> c = 8287 \<or>
     c = 12288 \<or> c = 65279"

definition is_term :: "jschar \<Rightarrow> bool" where
  \<comment> \<open>The class \<open>[.!?]\<close>.\<close>
  "is_term c \<longleftrightarrow> c = 46 \<or> c = 33 \<or> c = 63"

definition is_comma :: "jschar \<Rightarrow> bool" where
  \<comment> \<open>The class \<open>[,]\<close>.\<close>
  "is_comma c \<longleftrightarrow> c = 44"

definition trim :: "jsstring \<Rightarrow> jsstring" where
  \<comment> \<open>\<open>s.trim()\<close>\<close>
  "trim s = rev (dropWhile is_ws (rev (dropWhile is_ws s)))"

text \<open>
  \<open>s.split(re)\<close> for a regular expression \<open>re\<close> of the shape \<open>C\s+\<close> (no capture,
  \<open>cap = False\<close>) or \<open>(C)\s+\<close> (one capture, \<open>cap = True\<close>), where \<open>C\<close> is a class of
  single code units. The split scans from the left; at a code unit of \<open>C\<close> that is
  followed by white space it closes the current piece \<open>acc\<close>, emits the captured code
  unit when there is a capture group, skips all the white space that follows (\<open>\s+\<close> is
  greedy) and goes on; the rest of the string is the last piece, possibly empty.
\<close>

function split_re :: "(jschar \<Rightarrow> bool) \<Rightarrow> bool \<Rightarrow> jsstring \<Rightarrow> jsstring \<Rightarrow> jsstring list" where
  "split_re sep cap acc [] = [acc]"
| "split_re sep cap acc (c # cs) =
     (if sep c \<and> cs \<noteq> [] \<and> is_ws (hd cs)
      then acc # (if cap then [[c]] else []) @ split_re sep cap [] (dropWhile is_ws cs)
      else split_re sep cap (acc @ [c]) cs)"
  by pat_completeness auto
termination
  by (relation "measure (\<lambda>(sep, cap, acc, s). length s)")
     (auto simp: less_Suc_eq_le length_dropWhile_le)

definition ends_with_term :: "jsstring \<Rightarrow> bool" where
  \<comment> \<open>\<open>/[.!?]$/.test(s)\<close>\<close>
  "ends_with_term s \<longleftrightarrow> s \<noteq> [] \<and> is_term (last s)"

section \<open>The segmenter: \<open>splitText\<close>\<close>

definition MAX_CHARS :: nat where
  "MAX_CHARS = 24"

definition sentences :: "jsstring \<Rightarrow> jsstring list" where
  \<comment> \<open>\<open>text.split(/[.!?]\s+/).filter(s => s.trim().length > 0)
        .map(s => s.trim() + (/[.!?]$/.test(s) ? '' : '.'))\<close>\<close>
  "sentences txt =
     map (\<lambda>s. trim s @ (if ends_with_term s then [] else js ''.''))
       (filter (\<lambda>s. length (trim s) > 0) (split_re is_term False [] txt))"

definition comma_parts :: "jsstring \<Rightarrow> jsstring list" where
  \<comment> \<open>\<open>s.split(/([,])\s+/).filter(Boolean)\<close>: the empty string is the only falsy string.\<close>
  "comma_parts s = filter (\<lambda>p. p \<noteq> []) (split_re is_comma True [] s)"

text \<open>
  The inner \<open>parts.forEach\<close>: the state is the array \<open>chunks\<close> and the buffer
  \<open>currentChunk\<close>.
\<close>

fun pack_parts :: "jsstring list \<Rightarrow> jsstring list \<times> jsstring \<Rightarrow> jsstring list \<times> jsstring" where
  "pack_parts [] st = st"
| "pack_parts (p # ps) (chunks, currentChunk) =
     (if length (currentChunk @ p) > MAX_CHARS \<and> currentChunk \<noteq> []
      then pack_parts ps (chunks @ [trim currentChunk], p)
      else pack_parts ps (chunks, currentChunk @ p))"

definition split_sentence :: "jsstring list \<Rightarrow> jsstring \<Rightarrow> jsstring list" where
  \<comment> \<open>The body of \<open>sentences.forEach\<close>, on the array \<open>chunks\<close>.\<close>
  "split_sentence chunks s =
     (if length s \<le> MAX_CHARS then chunks @ [s]
      else (case pack_parts (comma_parts s) (chunks, []) of
              (chunks', currentChunk) \<Rightarrow>
                if currentChunk \<noteq> [] then chunks' @ [trim currentChunk] else chunks'))"

definition splitText :: "jsstring \<Rightarrow> jsstring list" where
  "splitText txt = foldl split_sentence [] (sentences txt)"

section \<open>The timeline mapper: \<open>getTimedCaptions\<close>\<close>

datatype Section = Hook | Body | Outro

record ScriptContent =
  hook :: jsstring
  body :: jsstring
  outro :: jsstring

record TimedCaption =
  caption_text :: jsstring
  startTime :: rat
  endTime :: rat
  caption_section :: Section

text \<open>
  Times are JavaScript numbers. They are modelled as exact rationals: the rounding of IEEE
  doubles is not part of the model, and a duration is a finite number (the caller passes
  \<open>audio?.duration || 10\<close>). A JavaScript division does not raise on a zero
  divisor, it yields \<open>NaN\<close> or an infinity; the model makes that outcome the value
  \<open>Inl NonFinite\<close>, so that a timeline with such an entry is told apart from a timeline
  of numbers.
\<close>

datatype error = NonFinite

definition js_div :: "nat \<Rightarrow> nat \<Rightarrow> error + rat" where
  "js_div a b = (if b = 0 then Inl NonFinite else Inr (of_nat a / of_nat b))"

text \<open>
  \<open>mapToTimed\<close> is a closure over \<open>totalChars\<close> and \<open>duration\<close> that updates the
  variables \<open>accumulatedChars\<close> and \<open>captions\<close>: they are the state that is passed.
\<close>

fun mapToTimed ::
  "nat \<Rightarrow> rat \<Rightarrow> jsstring list \<Rightarrow> Section \<Rightarrow> nat \<times> TimedCaption list
     \<Rightarrow> error + nat \<times> TimedCaption list" where
  "mapToTimed totalChars duration [] sec st = Inr st"
| "mapToTimed totalChars duration (t # chunks) sec (accumulatedChars, captions) =
     (case js_div accumulatedChars totalChars of
        Inl e \<Rightarrow> Inl e
      | Inr q \<Rightarrow>
          let start = q * duration;
              accumulatedChars' = accumulatedChars + length t
          in (case js_div accumulatedChars' totalChars of
                Inl e \<Rightarrow> Inl e
              | Inr q' \<Rightarrow>
                  mapToTimed totalChars duration chunks sec
                    (accumulatedChars',
                     captions @ [\<lparr>caption_text = t, startTime = start,
                                  endTime = q' * duration, caption_section = sec\<rparr>])))"

definition totalChars :: "ScriptContent \<Rightarrow> nat" where
  \<comment> \<open>\<open>(hookChunks.join('') + bodyChunks.join('') + outroChunks.join('')).length\<close>\<close>
  "totalChars script =
     length (concat (splitText (hook script)) @ concat (splitText (body script))
               @ concat (splitText (outro script)))"

definition getTimedCaptions :: "ScriptContent \<Rightarrow> rat \<Rightarrow> error + TimedCaption list" where
  "getTimedCaptions script duration =
     (let hookChunks = splitText (hook script);
          bodyChunks = splitText (body script);
          outroChunks = splitText (outro script);
          totalChars = totalChars script
      in case mapToTimed totalChars duration hookChunks Hook (0, []) of
           Inl e \<Rightarrow> Inl e
         | Inr st1 \<Rightarrow>
             (case mapToTimed totalChars duration bodyChunks Body st1 of
                Inl e \<Rightarrow> Inl e
              | Inr st2 \<Rightarrow>
                  (case mapToTimed totalChars duration outroChunks Outro st2 of
                     Inl e \<Rightarrow> Inl e
                   | Inr (accumulatedChars, captions) \<Rightarrow> Inr captions)))"

section \<open>The scene selector inside \<open>render\<close>\<close>

definition currentCap :: "TimedCaption list \<Rightarrow> rat \<Rightarrow> TimedCaption option" where
  \<comment> \<open>\<open>allCaptions.find(s => time >= s.startTime && time < s.endTime)
        || allCaptions[allCaptions.length - 1]\<close>; \<open>None\<close> is \<open>undefined\<close>.\<close>
  "currentCap allCaptions time =
     (case find (\<lambda>s. time \<ge> startTime s \<and> time < endTime s) allCaptions of
        Some c \<Rightarrow> Some c
      | None \<Rightarrow> if allCaptions = [] then None else Some (last allCaptions))"

definition bodyS :: "TimedCaption list \<Rightarrow> rat" where
  \<comment> \<open>\<open>allCaptions.find(s => s.section === 'body')?.startTime || 0\<close>\<close>
  "bodyS allCaptions =
     (case find (\<lambda>s. caption_section s = Body) allCaptions of
        Some s \<Rightarrow> if startTime s = 0 then 0 else startTime s
      | None \<Rightarrow> 0)"

definition bodyE :: "TimedCaption list \<Rightarrow> rat \<Rightarrow> rat" where
  \<comment> \<open>\<open>[...allCaptions].reverse().find(s => s.section === 'body')?.endTime || duration\<close>:
      the number 0 is falsy.\<close>
  "bodyE allCaptions duration =
     (case find (\<lambda>s. caption_section s = Body) (rev allCaptions) of
        Some s \<Rightarrow> if endTime s = 0 then duration else endTime s
      | None \<Rightarrow> duration)"

definition prog :: "TimedCaption list \<Rightarrow> rat \<Rightarrow> rat \<Rightarrow> rat" where
  \<comment> \<open>\<open>(time - bodyS) / (bodyE - bodyS || 1)\<close>\<close>
  "prog allCaptions duration time =
     (time - bodyS allCaptions) /
       (if bodyE allCaptions duration - bodyS allCaptions = 0 then 1
        else bodyE allCaptions duration - bodyS allCaptions)"

definition bodyImgIdx :: "TimedCaption list \<Rightarrow> rat \<Rightarrow> rat \<Rightarrow> nat \<Rightarrow> int" where
  \<comment> \<open>The \<open>else\<close> branch; \<open>images\<close> is the number of image assets.\<close>
  "bodyImgIdx allCaptions duration time images =
     (let bCount = int images - 2
      in 1 + min \<lfloor>prog allCaptions duration time * of_int bCount\<rfloor> (bCount - 1))"

definition currentImgIdx :: "TimedCaption list \<Rightarrow> rat \<Rightarrow> rat \<Rightarrow> nat \<Rightarrow> int" where
  "currentImgIdx allCaptions duration time images =
     (case currentCap allCaptions time of
        Some c \<Rightarrow>
          if caption_section c = Hook then 0
          else if caption_section c = Outro then int images - 1
          else bodyImgIdx allCaptions duration time images
      | None \<Rightarrow> bodyImgIdx allCaptions duration time images)"

definition render_index :: "ScriptContent \<Rightarrow> rat \<Rightarrow> rat \<Rightarrow> nat \<Rightarrow> error + int" where
  \<comment> \<open>The effect computes \<open>allCaptions = getTimedCaptions(result.script, duration)\<close> once and
      \<open>render\<close> selects the image index from it at each frame.\<close>
  "render_index script duration time images =
     (case getTimedCaptions script duration of
        Inl e \<Rightarrow> Inl e
      | Inr allCaptions \<Rightarrow> Inr (currentImgIdx allCaptions duration time images))"

section \<open>The capture pipeline: \<open>exportVideo\<close>\<close>

text \<open>
  The component state that \<open>exportVideo\<close> and its callbacks read and write. A
  \<open>MediaRecorder\<close> is \<open>Created\<close> by its constructor, \<open>Recording\<close> after \<open>start()\<close>,
  \<open>Stopping\<close> after \<open>stop()\<close> until its \<open>stop\<close> event has been delivered, and
  \<open>Stopped\<close> afterwards. Every recorder ever created stays in the list \<open>recorders\<close>;
  its position identifies it in the closures that refer to it. \<open>hasCanvas\<close> and
  \<open>hasAudio\<close> say that \<open>canvasRef.current\<close> and \<open>audioRef.current\<close> are set; the view
  renders the canvas and the audio element in the same block, so the mounted component
  has both.
\<close>

datatype recorder_state = Created | Recording | Stopping | Stopped

record app =
  hasCanvas :: bool
  hasAudio :: bool
  isExporting :: bool
  isPlaying :: bool
  audioTime :: rat
  recorders :: "recorder_state list"
  onended :: "nat option"
  timers :: "nat list"

text \<open>
  The statements of a handler with an effect on this state, in program order. React
  applies the state setters when the handler returns; applying them in order gives the
  same state at the end of the handler.
\<close>

datatype action =
    SetIsExporting bool
  | SetIsPlaying bool
  | NewRecorder
  | RecorderStart nat
  | RecorderStop nat
  | SetAudioTime rat
  | SetOnEnded "nat option"
  | SetTimeout nat

fun apply_action :: "action \<Rightarrow> app \<Rightarrow> app option" where
  \<comment> \<open>\<open>None\<close>: the statement throws (\<open>InvalidStateError\<close>).\<close>
  "apply_action (SetIsExporting b) s = Some (s\<lparr>isExporting := b\<rparr>)"
| "apply_action (SetIsPlaying b) s = Some (s\<lparr>isPlaying := b\<rparr>)"
| "apply_action NewRecorder s = Some (s\<lparr>recorders := recorders s @ [Created]\<rparr>)"
| "apply_action (RecorderStart r) s =
     (if r < length (recorders s) \<and> recorders s ! r = Created
      then Some (s\<lparr>recorders := (recorders s)[r := Recording]\<rparr>) else None)"
| "apply_action (RecorderStop r) s =
     (if r < length (recorders s) \<and> recorders s ! r = Recording
      then Some (s\<lparr>recorders := (recorders s)[r := Stopping]\<rparr>) else None)"
| "apply_action (SetAudioTime t) s = Some (s\<lparr>audioTime := t\<rparr>)"
| "apply_action (SetOnEnded h) s = Some (s\<lparr>onended := h\<rparr>)"
| "apply_action (SetTimeout r) s = Some (s\<lparr>timers := timers s @ [r]\<rparr>)"

fun run :: "action list \<Rightarrow> app \<Rightarrow> app" where
  \<comment> \<open>A statement that throws ends the handler.\<close>
  "run [] s = s"
| "run (a # as) s = (case apply_action a s of None \<Rightarrow> s | Some s' \<Rightarrow> run as s')"

definition exportVideo_actions :: "app \<Rightarrow> action list" where
  "exportVideo_actions s =
     (if \<not> hasCanvas s \<or> isExporting s then []
      else let recorder = length (recorders s)
           in [SetIsExporting True, SetIsPlaying False, NewRecorder, RecorderStart recorder]
              @ (if hasAudio s
                 then [SetAudioTime 0, SetIsPlaying True, SetOnEnded (Some recorder)]
                 else [SetTimeout recorder]))"

definition exportVideo :: "app \<Rightarrow> app" where
  "exportVideo s = run (exportVideo_actions s) s"

definition audioEnded :: "app \<Rightarrow> app" where
  \<comment> \<open>The \<open>ended\<close> event of the narration audio: the listener of the element,
      \<open>onEnded={() => setIsPlaying(false)}\<close>, and the handler that \<open>exportVideo\<close> stored in
      \<open>audio.onended\<close>, when there is one.\<close>
  "audioEnded s =
     (let s1 = s\<lparr>isPlaying := False\<rparr>
      in case onended s1 of
           None \<Rightarrow> s1
         | Some recorder \<Rightarrow> run [RecorderStop recorder, SetIsPlaying False, SetOnEnded None] s1)"

definition timeoutFired :: "nat \<Rightarrow> app \<Rightarrow> app" where
  \<comment> \<open>The callback of \<open>setTimeout(() => recorder.stop(), 5000)\<close>.\<close>
  "timeoutFired recorder s = run [RecorderStop recorder] (s\<lparr>timers := remove1 recorder (timers s)\<rparr>)"

definition recorderOnstop :: "nat \<Rightarrow> app \<Rightarrow> app" where
  \<comment> \<open>The \<open>stop\<close> event of a recorder: \<open>recorder.onstop\<close> saves the file and calls
      \<open>setIsExporting(false)\<close>.\<close>
  "recorderOnstop recorder s =
     s\<lparr>recorders := (recorders s)[recorder := Stopped], isExporting := False\<rparr>"

definition handleTogglePlay :: "app \<Rightarrow> app" where
  "handleTogglePlay s = s\<lparr>isPlaying := \<not> isPlaying s\<rparr>"

definition initial :: "bool \<Rightarrow> bool \<Rightarrow> app" where
  \<comment> \<open>The state after mounting: the \<open>useState\<close> defaults, no recorder, no handler.\<close>
  "initial canvas audio =
     \<lparr>hasCanvas = canvas, hasAudio = audio, isExporting = False, isPlaying = False,
      audioTime = 0, recorders = [], onended = None, timers = []\<rparr>"

text \<open>
  The states the component can be in between two events: each handler runs to its end
  before the next event is delivered, and the narration clock can stand anywhere.
\<close>

inductive reachable :: "app \<Rightarrow> bool" where
  r_init: "reachable (initial canvas audio)"
| r_export: "reachable s \<Longrightarrow> reachable (exportVideo s)"
| r_toggle: "reachable s \<Longrightarrow> reachable (handleTogglePlay s)"
| r_clock: "reachable s \<Longrightarrow> reachable (s\<lparr>audioTime := t\<rparr>)"
| r_ended: "reachable s \<Longrightarrow> hasAudio s \<Longrightarrow> reachable (audioEnded s)"
| r_timeout: "reachable s \<Longrightarrow> r \<in> set (timers s) \<Longrightarrow> reachable (timeoutFired r s)"
| r_onstop: "reachable s \<Longrightarrow> r < length (recorders s) \<Longrightarrow> recorders s ! r = Stopping \<Longrightarrow>
     reachable (recorderOnstop r s)"

definition in_flight :: "app \<Rightarrow> nat" where
  \<comment> \<open>The captures in flight: the recorders whose \<open>stop\<close> event has not been delivered.\<close>
  "in_flight s = length (filter (\<lambda>r. r \<noteq> Stopped) (recorders s))"

section \<open>Predicates and examples used in the statements\<close>

definition starts_ink :: "jsstring \<Rightarrow> bool" where
  \<comment> \<open>The string begins with a code unit that is not white space.\<close>
  "starts_ink s \<longleftrightarrow> s \<noteq> [] \<and> \<not> is_ws (hd s)"

definition trimmed :: "jsstring \<Rightarrow> bool" where
  \<comment> \<open>Not empty, and no white space at either end.\<close>
  "trimmed s \<longleftrightarrow> s \<noteq> [] \<and> \<not> is_ws (hd s) \<and> \<not> is_ws (last s)"

fun chained :: "rat \<Rightarrow> TimedCaption list \<Rightarrow> rat \<Rightarrow> bool" where
  \<comment> \<open>The intervals of the captions lead from \<open>a\<close> to \<open>b\<close>: each is not empty and
      begins where the one before ends.\<close>
  "chained a [] b \<longleftrightarrow> a = b"
| "chained a (c # cs) b \<longleftrightarrow> startTime c = a \<and> startTime c < endTime c \<and> chained (endTime c) cs b"

definition scenario :: ScriptContent where
  \<comment> \<open>The script of the first scenario of the specification.\<close>
  "scenario =
     \<lparr>hook = js ''Winter treats are here.'',
      body = js ''First, try hotteok. Second, try odeng soup.'',
      outro = js ''Try them today!''\<rparr>"

definition blank_script :: ScriptContent where
  \<comment> \<open>A script of white space only: spaces, nothing, a tab and a line feed.\<close>
  "blank_script = \<lparr>hook = js ''  '', body = [], outro = [9, 10]\<rparr>"

definition ink :: "jschar \<Rightarrow> bool" where
  \<comment> \<open>A code unit that is neither white space nor one of the sentence terminators
      \<open>.\<close>, \<open>!\<close>, \<open>?\<close>.\<close>
  "ink c \<longleftrightarrow> \<not> is_ws c \<and> \<not> is_term c"

definition section_text :: "Section \<Rightarrow> TimedCaption list \<Rightarrow> jsstring" where
  \<comment> \<open>The texts of the captions of one section, in order, concatenated.\<close>
  "section_text sec caps = concat (map caption_text (filter (\<lambda>c. caption_section c = sec) caps))"

definition exclaim_script :: ScriptContent where
  \<comment> \<open>A script whose hook has a sentence that ends with an exclamation mark.\<close>
  "exclaim_script = \<lparr>hook = js ''Wow! Great.'', body = js ''Hi.'', outro = js ''Bye.''\<rparr>"

fun pack_buffers :: "jsstring list \<Rightarrow> jsstring \<Rightarrow> jsstring list" where
  \<comment> \<open>The buffers \<open>currentChunk\<close> that the inner \<open>forEach\<close> and the statement after it push,
      before \<open>trim()\<close> is applied to them.\<close>
  "pack_buffers [] currentChunk = (if currentChunk \<noteq> [] then [currentChunk] else [])"
| "pack_buffers (p # ps) currentChunk =
     (if length (currentChunk @ p) > MAX_CHARS \<and> currentChunk \<noteq> []
      then currentChunk # pack_buffers ps p
      else pack_buffers ps (currentChunk @ p))"

definition long_sentence :: jsstring where
  \<comment> \<open>A sentence whose first clause has 40 code units.\<close>
  "long_sentence = js ''This clause is far longer than the limit, ok.''"

definition long_text :: jsstring where
  \<comment> \<open>A text of three sentences; the first clause of the second one has 40 code units.\<close>
  "long_text = js ''Hi! This clause is far longer than the limit, ok. Bye''"

definition capture_inv :: "app \<Rightarrow> bool" where
  \<comment> \<open>While exporting, the last recorder is the only one that is not stopped; otherwise
      all recorders are stopped.\<close>
  "capture_inv s \<longleftrightarrow>
     (if isExporting s
      then recorders s \<noteq> [] \<and> (\<forall>r \<in> set (butlast (recorders s)). r = Stopped)
           \<and> (last (recorders s) = Recording \<or> last (recorders s) = Stopping)
      else \<forall>r \<in> set (recorders s). r = Stopped)"


section \<open>Properties\<close>

subsection \<open>Chunks are trimmed and not empty\<close>

lemma is_term_not_ws: "is_term c \<Longrightarrow> \<not> is_ws c"
  by (auto simp: is_term_def is_ws_def)

lemma is_comma_not_ws: "is_comma c \<Longrightarrow> \<not> is_ws c"
  by (auto simp: is_comma_def is_ws_def)

lemma dot_not_ws: "\<not> is_ws 46"
  by (simp add: is_ws_def)

lemma js_dot: "js ''.'' = [46]"
  by (simp add: js_def)

lemma dropWhile_rev_trailing:
  "xs \<noteq> [] \<Longrightarrow> \<not> P (hd xs) \<Longrightarrow> rev (dropWhile P (rev xs)) \<noteq> [] \<and> hd (rev (dropWhile P (rev xs))) = hd xs"
proof (induction xs rule: rev_induct)
  case Nil
  then show ?case by simp
next
  case (snoc x xs)
  show ?case
  proof (cases xs)
    case Nil
    with snoc.prems show ?thesis by simp
  next
    case (Cons y ys)
    with snoc show ?thesis by (cases "P x") auto
  qed
qed

lemma last_rev_dropWhile:
  "rev (dropWhile P (rev xs)) \<noteq> [] \<Longrightarrow> \<not> P (last (rev (dropWhile P (rev xs))))"
proof -
  assume a: "rev (dropWhile P (rev xs)) \<noteq> []"
  then have "dropWhile P (rev xs) \<noteq> []" by simp
  then have "\<not> P (hd (dropWhile P (rev xs)))" by (rule hd_dropWhile)
  moreover have "last (rev (dropWhile P (rev xs))) = hd (dropWhile P (rev xs))"
    using a by (simp add: last_rev)
  ultimately show ?thesis by simp
qed

lemma trim_Nil [simp]: "trim [] = []"
  by (simp add: trim_def)

lemma trim_nonempty_trimmed: "trim s \<noteq> [] \<Longrightarrow> trimmed (trim s)"
proof -
  assume ne: "trim s \<noteq> []"
  let ?d = "dropWhile is_ws s"
  have d: "?d \<noteq> []"
  proof
    assume e: "?d = []"
    have "trim s = rev (dropWhile is_ws (rev ?d))" by (simp add: trim_def)
    also have "\<dots> = []" by (simp only: e rev.simps dropWhile.simps)
    finally show False using ne by simp
  qed
  then have h: "\<not> is_ws (hd ?d)" by (rule hd_dropWhile)
  from dropWhile_rev_trailing [of ?d is_ws] d h have "hd (trim s) = hd ?d"
    by (simp add: trim_def)
  with h have "\<not> is_ws (hd (trim s))" by simp
  moreover from ne have "\<not> is_ws (last (trim s))"
    unfolding trim_def by (rule last_rev_dropWhile)
  ultimately show ?thesis using ne by (simp add: trimmed_def)
qed

lemma trim_starts_ink: "starts_ink s \<Longrightarrow> trimmed (trim s)"
proof -
  assume a: "starts_ink s"
  then have d: "dropWhile is_ws s = s" by (cases s) (auto simp: starts_ink_def)
  from a have "s \<noteq> []" "\<not> is_ws (hd s)" by (auto simp: starts_ink_def)
  with dropWhile_rev_trailing [of s is_ws] have "trim s \<noteq> []" by (simp add: trim_def d)
  then show ?thesis by (rule trim_nonempty_trimmed)
qed

lemma trimmed_starts_ink: "trimmed s \<Longrightarrow> starts_ink s"
  by (simp add: trimmed_def starts_ink_def)

lemma trimmed_append_ink: "trimmed s \<Longrightarrow> \<not> is_ws c \<Longrightarrow> trimmed (s @ [c])"
  by (simp add: trimmed_def)

lemma sentences_trimmed: "s \<in> set (sentences txt) \<Longrightarrow> trimmed s"
proof -
  assume "s \<in> set (sentences txt)"
  then obtain r where r: "trim r \<noteq> []"
    and s: "s = trim r @ (if ends_with_term r then [] else js ''.'')"
    by (auto simp: sentences_def)
  from r have t: "trimmed (trim r)" by (rule trim_nonempty_trimmed)
  show ?thesis
  proof (cases "ends_with_term r")
    case True
    with s t show ?thesis by simp
  next
    case False
    with s have "s = trim r @ [46]" by (simp add: js_dot)
    with t dot_not_ws show ?thesis by (simp add: trimmed_append_ink)
  qed
qed

lemma split_re_pieces:
  "\<forall>c. sep c \<longrightarrow> \<not> is_ws c \<Longrightarrow>
   (if acc = [] then s = [] \<or> \<not> is_ws (hd s) else \<not> is_ws (hd acc)) \<Longrightarrow>
   p \<in> set (split_re sep cap acc s) \<Longrightarrow> p = [] \<or> \<not> is_ws (hd p)"
proof (induction sep cap acc s rule: split_re.induct)
  case (1 sep cap acc)
  then show ?case by (auto split: if_splits)
next
  case (2 sep cap acc c cs)
  show ?case
  proof (cases "sep c \<and> cs \<noteq> [] \<and> is_ws (hd cs)")
    case True
    let ?r = "dropWhile is_ws cs"
    have r: "?r = [] \<or> \<not> is_ws (hd ?r)"
      using hd_dropWhile [of is_ws cs] by blast
    from True "2.prems"(3)
    consider "p = acc" | "p = [c]" | "p \<in> set (split_re sep cap [] ?r)"
      by (auto split: if_splits)
    then show ?thesis
    proof cases
      case 1
      with "2.prems"(2) show ?thesis by (auto split: if_splits)
    next
      case 2
      with True "2.prems"(1) show ?thesis by simp
    next
      case 3
      with "2.IH"(1) [OF True "2.prems"(1)] r show ?thesis by simp
    qed
  next
    case False
    with "2.prems"(3) have m: "p \<in> set (split_re sep cap (acc @ [c]) cs)" by auto
    from "2.prems"(2) have "\<not> is_ws (hd (acc @ [c]))" by (cases acc) auto
    with "2.IH"(2) [OF False "2.prems"(1)] m show ?thesis by simp
  qed
qed

lemma comma_parts_ink: "starts_ink s \<Longrightarrow> p \<in> set (comma_parts s) \<Longrightarrow> starts_ink p"
proof -
  assume s: "starts_ink s" and p: "p \<in> set (comma_parts s)"
  from p have ne: "p \<noteq> []" and m: "p \<in> set (split_re is_comma True [] s)"
    by (auto simp: comma_parts_def)
  have "\<forall>c. is_comma c \<longrightarrow> \<not> is_ws c" by (simp add: is_comma_not_ws)
  moreover from s have "if ([]::jsstring) = [] then s = [] \<or> \<not> is_ws (hd s) else \<not> is_ws (hd [])"
    by (simp add: starts_ink_def)
  ultimately have "p = [] \<or> \<not> is_ws (hd p)" using m by (rule split_re_pieces)
  with ne show ?thesis by (simp add: starts_ink_def)
qed

lemma starts_ink_append: "(cur = [] \<or> starts_ink cur) \<Longrightarrow> starts_ink p \<Longrightarrow> starts_ink (cur @ p)"
  by (cases cur) (auto simp: starts_ink_def)

lemma pack_parts_trimmed:
  "\<forall>p \<in> set ps. starts_ink p \<Longrightarrow> cur = [] \<or> starts_ink cur \<Longrightarrow>
   \<forall>c \<in> set chunks. trimmed c \<Longrightarrow>
   (\<forall>c \<in> set (fst (pack_parts ps (chunks, cur))). trimmed c) \<and>
   (snd (pack_parts ps (chunks, cur)) = [] \<or> starts_ink (snd (pack_parts ps (chunks, cur))))"
proof (induction ps arbitrary: chunks cur)
  case Nil
  then show ?case by simp
next
  case (Cons p ps)
  from Cons.prems(1) have p: "starts_ink p" and ps: "\<forall>q \<in> set ps. starts_ink q" by simp_all
  show ?case
  proof (cases "length (cur @ p) > MAX_CHARS \<and> cur \<noteq> []")
    case True
    with Cons.prems(2) have "trimmed (trim cur)" by (simp add: trim_starts_ink)
    with Cons.prems(3) have "\<forall>c \<in> set (chunks @ [trim cur]). trimmed c" by simp
    from Cons.IH [OF ps _ this, of p] p True show ?thesis by simp
  next
    case False
    from Cons.prems(2) p have "starts_ink (cur @ p)" by (rule starts_ink_append)
    with Cons.IH [OF ps _ Cons.prems(3), of "cur @ p"] False show ?thesis by auto
  qed
qed

lemma split_sentence_trimmed:
  assumes "trimmed s" and "\<forall>c \<in> set chunks. trimmed c"
  shows "\<forall>c \<in> set (split_sentence chunks s). trimmed c"
proof (cases "length s \<le> MAX_CHARS")
  case True
  with assms show ?thesis by (simp add: split_sentence_def)
next
  case False
  obtain chunks' cur where pk: "pack_parts (comma_parts s) (chunks, []) = (chunks', cur)"
    by (cases "pack_parts (comma_parts s) (chunks, [])")
  from assms(1) have "\<forall>p \<in> set (comma_parts s). starts_ink p"
    by (auto intro: comma_parts_ink trimmed_starts_ink)
  from pack_parts_trimmed [OF this _ assms(2), of "[]"] pk
  have c': "\<forall>c \<in> set chunks'. trimmed c" and cur: "cur = [] \<or> starts_ink cur" by simp_all
  show ?thesis
  proof (cases "cur = []")
    case True
    with False pk c' show ?thesis by (simp add: split_sentence_def)
  next
    case False
    with cur have "trimmed (trim cur)" by (simp add: trim_starts_ink)
    with \<open>\<not> length s \<le> MAX_CHARS\<close> False pk c' show ?thesis by (simp add: split_sentence_def)
  qed
qed

lemma foldl_split_sentence_trimmed:
  "\<forall>s \<in> set ss. trimmed s \<Longrightarrow> \<forall>c \<in> set chunks. trimmed c \<Longrightarrow>
   \<forall>c \<in> set (foldl split_sentence chunks ss). trimmed c"
proof (induction ss arbitrary: chunks)
  case Nil
  then show ?case by simp
next
  case (Cons s ss)
  from Cons.prems have "trimmed s" by simp
  from this Cons.prems(2) have "\<forall>c \<in> set (split_sentence chunks s). trimmed c"
    by (rule split_sentence_trimmed)
  with Cons.IH [of "split_sentence chunks s"] Cons.prems(1) show ?case by simp
qed

lemma splitText_trimmed: "c \<in> set (splitText txt) \<Longrightarrow> trimmed c"
  using foldl_split_sentence_trimmed [of "sentences txt" "[]"]
  by (simp add: splitText_def sentences_trimmed)

subsection \<open>The intervals of a timeline\<close>

lemma chained_append:
  "chained a xs b \<Longrightarrow> chained b ys c \<Longrightarrow> chained a (xs @ ys) c"
  by (induction xs arbitrary: a) auto

lemma chained_le: "chained a cs b \<Longrightarrow> a \<le> b"
proof (induction cs arbitrary: a)
  case Nil
  then show ?case by simp
next
  case (Cons c cs)
  then have "endTime c \<le> b" by simp
  with Cons.prems show ?case by simp
qed

lemma chained_bounds:
  "chained a cs b \<Longrightarrow> c \<in> set cs \<Longrightarrow> a \<le> startTime c \<and> startTime c < endTime c \<and> endTime c \<le> b"
proof (induction cs arbitrary: a)
  case Nil
  then show ?case by simp
next
  case (Cons x cs)
  show ?case
  proof (cases "c = x")
    case True
    with Cons.prems chained_le [of "endTime x" cs b] show ?thesis by simp
  next
    case False
    with Cons.prems have "endTime x \<le> startTime c \<and> startTime c < endTime c \<and> endTime c \<le> b"
      using Cons.IH [of "endTime x"] by simp
    with Cons.prems show ?thesis by simp
  qed
qed

lemma chained_snoc:
  "chained a (cs @ [c]) b \<longleftrightarrow> chained a cs (startTime c) \<and> startTime c < endTime c \<and> endTime c = b"
  by (induction cs arbitrary: a) auto

lemma chained_hd: "chained a cs b \<Longrightarrow> cs \<noteq> [] \<Longrightarrow> startTime (hd cs) = a"
  by (cases cs) simp_all

lemma chained_last: "chained a cs b \<Longrightarrow> cs \<noteq> [] \<Longrightarrow> endTime (last cs) = b"
  by (induction cs arbitrary: a) (auto split: if_splits)

lemma chained_nth_lt: "chained a cs b \<Longrightarrow> i < length cs \<Longrightarrow> startTime (cs ! i) < endTime (cs ! i)"
  using chained_bounds [of a cs b "cs ! i"] by simp

lemma chained_nth_next:
  "chained a cs b \<Longrightarrow> Suc i < length cs \<Longrightarrow> startTime (cs ! Suc i) = endTime (cs ! i)"
proof (induction cs arbitrary: a i)
  case Nil
  then show ?case by simp
next
  case (Cons c cs)
  show ?case
  proof (cases i)
    case 0
    with Cons.prems show ?thesis by (cases cs) auto
  next
    case (Suc j)
    with Cons.prems Cons.IH [of "endTime c" j] show ?thesis by simp
  qed
qed

lemma chained_sorted: "chained a cs b \<Longrightarrow> sorted (map startTime cs)"
proof (induction cs arbitrary: a)
  case Nil
  then show ?case by simp
next
  case (Cons c cs)
  then have t: "chained (endTime c) cs b" and lt: "startTime c < endTime c" by simp_all
  have "\<forall>x \<in> set cs. startTime c \<le> startTime x"
  proof
    fix x assume "x \<in> set cs"
    with t have "endTime c \<le> startTime x" using chained_bounds by blast
    with lt show "startTime c \<le> startTime x" by simp
  qed
  with Cons.IH [OF t] show ?case by simp
qed

lemma js_div_pos: "0 < b \<Longrightarrow> js_div a b = Inr (of_nat a / of_nat b)"
  by (simp add: js_div_def)

lemma mapToTimed_Cons:
  "0 < tot \<Longrightarrow>
   mapToTimed tot d (t # chunks) sec (acc, caps) =
     mapToTimed tot d chunks sec
       (acc + length t,
        caps @ [\<lparr>caption_text = t, startTime = of_nat acc / of_nat tot * d,
                 endTime = of_nat (acc + length t) / of_nat tot * d, caption_section = sec\<rparr>])"
  by (simp add: js_div_pos Let_def)

lemma mapToTimed_shape:
  "0 < tot \<Longrightarrow>
   \<exists>new. mapToTimed tot d chunks sec (acc, caps) = Inr (acc + length (concat chunks), caps @ new)
     \<and> map caption_text new = chunks
     \<and> (\<forall>c \<in> set new. caption_section c = sec)
     \<and> (0 < d \<longrightarrow> (\<forall>t \<in> set chunks. t \<noteq> []) \<longrightarrow>
          chained (of_nat acc / of_nat tot * d) new
            (of_nat (acc + length (concat chunks)) / of_nat tot * d))"
proof (induction chunks arbitrary: acc caps)
  case Nil
  then show ?case by simp
next
  case (Cons t chunks)
  let ?c = "\<lparr>caption_text = t, startTime = of_nat acc / of_nat tot * d,
             endTime = of_nat (acc + length t) / of_nat tot * d, caption_section = sec\<rparr>"
  from Cons.IH [OF Cons.prems, of "acc + length t" "caps @ [?c]"]
  obtain new where
    m: "mapToTimed tot d chunks sec (acc + length t, caps @ [?c])
          = Inr (acc + length t + length (concat chunks), (caps @ [?c]) @ new)"
    and tx: "map caption_text new = chunks"
    and sc: "\<forall>c \<in> set new. caption_section c = sec"
    and ch: "0 < d \<longrightarrow> (\<forall>t \<in> set chunks. t \<noteq> []) \<longrightarrow>
          chained (of_nat (acc + length t) / of_nat tot * d) new
            (of_nat (acc + length t + length (concat chunks)) / of_nat tot * d)"
    by blast
  have lt: "0 < d \<Longrightarrow> t \<noteq> [] \<Longrightarrow>
      (of_nat acc :: rat) / of_nat tot * d < of_nat (acc + length t) / of_nat tot * d"
  proof -
    assume d: "0 < d" and t: "t \<noteq> []"
    from t have "(of_nat acc :: rat) < of_nat (acc + length t)" by simp
    with Cons.prems have "(of_nat acc :: rat) / of_nat tot < of_nat (acc + length t) / of_nat tot"
      by (simp add: divide_strict_right_mono)
    then show ?thesis using d by (rule mult_strict_right_mono)
  qed
  have e1: "mapToTimed tot d (t # chunks) sec (acc, caps)
          = Inr (acc + length (concat (t # chunks)), caps @ (?c # new))"
    using m Cons.prems by (simp add: mapToTimed_Cons add.assoc del: mapToTimed.simps)
  have e2: "map caption_text (?c # new) = t # chunks" using tx by simp
  have e3: "\<forall>c \<in> set (?c # new). caption_section c = sec" using sc by simp
  have e4: "0 < d \<longrightarrow> (\<forall>u \<in> set (t # chunks). u \<noteq> []) \<longrightarrow>
          chained (of_nat acc / of_nat tot * d) (?c # new)
            (of_nat (acc + length (concat (t # chunks))) / of_nat tot * d)"
    using ch lt by (simp add: add.assoc)
  show ?case by (rule exI [of _ "?c # new"]) (intro conjI e1 e2 e3 e4)
qed

subsection \<open>The shape of the timeline\<close>

lemma splitText_nonempty: "c \<in> set (splitText txt) \<Longrightarrow> c \<noteq> []"
  using splitText_trimmed [of c "txt"] by (simp add: trimmed_def)

lemma concat_Nil_nonempty: "\<forall>c \<in> set xs. c \<noteq> [] \<Longrightarrow> concat xs = [] \<Longrightarrow> xs = []"
  by (cases xs) auto

lemma totalChars_zero:
  assumes "totalChars script = 0"
  shows "splitText (hook script) = [] \<and> splitText (body script) = [] \<and> splitText (outro script) = []"
proof -
  from assms have "concat (splitText (hook script)) = []" "concat (splitText (body script)) = []"
    "concat (splitText (outro script)) = []"
    by (simp_all add: totalChars_def)
  then show ?thesis
    by (intro conjI concat_Nil_nonempty ballI splitText_nonempty) 
qed

lemma getTimedCaptions_empty:
  "splitText (hook script) = [] \<Longrightarrow> splitText (body script) = [] \<Longrightarrow>
   splitText (outro script) = [] \<Longrightarrow> getTimedCaptions script d = Inr []"
  by (simp add: getTimedCaptions_def)

lemma getTimedCaptions_shape:
  "\<exists>ch cb co. getTimedCaptions script d = Inr (ch @ cb @ co)
     \<and> map caption_text ch = splitText (hook script) \<and> (\<forall>c \<in> set ch. caption_section c = Hook)
     \<and> map caption_text cb = splitText (body script) \<and> (\<forall>c \<in> set cb. caption_section c = Body)
     \<and> map caption_text co = splitText (outro script) \<and> (\<forall>c \<in> set co. caption_section c = Outro)
     \<and> (0 < d \<longrightarrow> 0 < totalChars script \<longrightarrow> chained 0 (ch @ cb @ co) d)"
proof (cases "totalChars script = 0")
  case True
  then have e: "splitText (hook script) = []" "splitText (body script) = []"
    "splitText (outro script) = []"
    using totalChars_zero by blast+
  then have "getTimedCaptions script d = Inr ([] @ [] @ [])"
    by (simp add: getTimedCaptions_empty)
  with e True show ?thesis by (intro exI [of _ "[]"]) simp
next
  case False
  let ?T = "totalChars script"
  let ?H = "splitText (hook script)" and ?B = "splitText (body script)"
    and ?O = "splitText (outro script)"
  let ?h = "length (concat ?H)" and ?b = "length (concat ?B)" and ?o = "length (concat ?O)"
  from False have T: "0 < ?T" by simp
  have sum: "?T = ?h + ?b + ?o" by (simp add: totalChars_def)
  from mapToTimed_shape [OF T, of d ?H Hook 0 "[]"] obtain ch where
    h1: "mapToTimed ?T d ?H Hook (0, []) = Inr (?h, ch)"
    and h2: "map caption_text ch = ?H" and h3: "\<forall>c \<in> set ch. caption_section c = Hook"
    and h4: "0 < d \<longrightarrow> (\<forall>t \<in> set ?H. t \<noteq> []) \<longrightarrow>
      chained (of_nat 0 / of_nat ?T * d) ch (of_nat (0 + ?h) / of_nat ?T * d)"
    by auto
  from mapToTimed_shape [OF T, of d ?B Body ?h ch] obtain cb where
    b1: "mapToTimed ?T d ?B Body (?h, ch) = Inr (?h + ?b, ch @ cb)"
    and b2: "map caption_text cb = ?B" and b3: "\<forall>c \<in> set cb. caption_section c = Body"
    and b4: "0 < d \<longrightarrow> (\<forall>t \<in> set ?B. t \<noteq> []) \<longrightarrow>
      chained (of_nat ?h / of_nat ?T * d) cb (of_nat (?h + ?b) / of_nat ?T * d)"
    by auto
  from mapToTimed_shape [OF T, of d ?O Outro "?h + ?b" "ch @ cb"] obtain co where
    o1: "mapToTimed ?T d ?O Outro (?h + ?b, ch @ cb) = Inr (?h + ?b + ?o, (ch @ cb) @ co)"
    and o2: "map caption_text co = ?O" and o3: "\<forall>c \<in> set co. caption_section c = Outro"
    and o4: "0 < d \<longrightarrow> (\<forall>t \<in> set ?O. t \<noteq> []) \<longrightarrow>
      chained (of_nat (?h + ?b) / of_nat ?T * d) co (of_nat (?h + ?b + ?o) / of_nat ?T * d)"
    by auto
  have g: "getTimedCaptions script d = Inr (ch @ cb @ co)"
    by (simp add: getTimedCaptions_def h1 b1 o1)
  have c: "0 < d \<longrightarrow> 0 < ?T \<longrightarrow> chained 0 (ch @ cb @ co) d"
  proof (intro impI)
    assume d: "0 < d"
    have ne: "\<forall>t \<in> set ?H. t \<noteq> []" "\<forall>t \<in> set ?B. t \<noteq> []" "\<forall>t \<in> set ?O. t \<noteq> []"
      using splitText_nonempty by blast+
    from h4 d ne have c1: "chained 0 ch (of_nat ?h / of_nat ?T * d)" by simp
    from b4 d ne have c2: "chained (of_nat ?h / of_nat ?T * d) cb (of_nat (?h + ?b) / of_nat ?T * d)"
      by simp
    from o4 d ne have "chained (of_nat (?h + ?b) / of_nat ?T * d) co
        (of_nat (?h + ?b + ?o) / of_nat ?T * d)" by simp
    moreover have "(of_nat (?h + ?b + ?o) :: rat) / of_nat ?T * d = d"
    proof -
      have "(of_nat ?T :: rat) / of_nat ?T * d = d" using T by simp
      then show ?thesis by (simp only: sum [symmetric])
    qed
    ultimately have c3: "chained (of_nat (?h + ?b) / of_nat ?T * d) co d" by simp
    from c2 c3 have "chained (of_nat ?h / of_nat ?T * d) (cb @ co) d" by (rule chained_append)
    with c1 show "chained 0 (ch @ cb @ co) d" by (rule chained_append)
  qed
  show ?thesis
    by (rule exI [of _ ch], rule exI [of _ cb], rule exI [of _ co])
       (intro conjI g h2 h3 b2 b3 o2 o3 c)
qed

lemma getTimedCaptions_chained:
  assumes "0 < d" and "0 < totalChars script"
  shows "\<exists>caps. getTimedCaptions script d = Inr caps \<and> chained 0 caps d"
  using getTimedCaptions_shape [of script d] assms by blast

subsection \<open>The scenario of the specification, evaluated\<close>

lemmas seg_defs = splitText_def split_sentence_def MAX_CHARS_def sentences_def js_def is_ws_def
  is_term_def is_comma_def trim_def ends_with_term_def comma_parts_def

lemma scenario_hook: "splitText (hook scenario) = [js ''Winter treats are here.'']"
  by (simp add: scenario_def seg_defs)

lemma scenario_body:
  "splitText (body scenario) = [js ''First, try hotteok.'', js ''Second, try odeng soup.'']"
  by (simp add: scenario_def seg_defs)

lemma scenario_outro: "splitText (outro scenario) = [js ''Try them today!'']"
  by (simp add: scenario_def seg_defs)

lemma scenario_totalChars: "totalChars scenario = 80"
  by (simp add: totalChars_def scenario_hook scenario_body scenario_outro js_def)

lemma scenario_captions:
  "getTimedCaptions scenario 12 =
     Inr [\<lparr>caption_text = js ''Winter treats are here.'', startTime = 0, endTime = 69 / 20,
            caption_section = Hook\<rparr>,
          \<lparr>caption_text = js ''First, try hotteok.'', startTime = 69 / 20, endTime = 63 / 10,
            caption_section = Body\<rparr>,
          \<lparr>caption_text = js ''Second, try odeng soup.'', startTime = 63 / 10, endTime = 39 / 4,
            caption_section = Body\<rparr>,
          \<lparr>caption_text = js ''Try them today!'', startTime = 39 / 4, endTime = 12,
            caption_section = Outro\<rparr>]"
  by (simp add: getTimedCaptions_def scenario_totalChars scenario_hook scenario_body
      scenario_outro js_div_def js_def)

subsection \<open>Chunks and caption texts are not empty\<close>

text \<open>
  Claim C9. Every chunk that \<open>splitText\<close> produces is a non-empty string with no white
  space at its first and at its last position. Hence \<open>getTimedCaptions\<close> returns a
  timeline, every caption of it has a non-empty text of at least one code unit, and
  \<open>totalChars\<close> is the sum of the lengths of these texts.
\<close>

theorem chunks_trimmed_nonempty:
  "(\<forall>c \<in> set (splitText t). c \<noteq> [] \<and> \<not> is_ws (hd c) \<and> \<not> is_ws (last c)) \<and>
   (\<exists>caps. getTimedCaptions script d = Inr caps
      \<and> (\<forall>c \<in> set caps. caption_text c \<noteq> [] \<and> 1 \<le> length (caption_text c))
      \<and> totalChars script = (\<Sum>c\<leftarrow>caps. length (caption_text c)))"
proof
  show "\<forall>c \<in> set (splitText t). c \<noteq> [] \<and> \<not> is_ws (hd c) \<and> \<not> is_ws (last c)"
    using splitText_trimmed [of _ t] by (auto simp: trimmed_def)
next
  from getTimedCaptions_shape [of script d] obtain ch cb co where
    g: "getTimedCaptions script d = Inr (ch @ cb @ co)"
    and h: "map caption_text ch = splitText (hook script)"
    and b: "map caption_text cb = splitText (body script)"
    and o: "map caption_text co = splitText (outro script)"
    by blast
  have ne: "\<forall>c \<in> set (ch @ cb @ co). caption_text c \<noteq> [] \<and> 1 \<le> length (caption_text c)"
  proof
    fix c assume "c \<in> set (ch @ cb @ co)"
    then have "caption_text c \<in> set (map caption_text ch) \<union> set (map caption_text cb)
        \<union> set (map caption_text co)" by auto
    with h b o have "caption_text c \<noteq> []" using splitText_nonempty by auto
    then show "caption_text c \<noteq> [] \<and> 1 \<le> length (caption_text c)"
      by (cases "caption_text c") simp_all
  qed
  have len: "\<And>xs. (\<Sum>c\<leftarrow>xs. length (caption_text c)) = length (concat (map caption_text xs))"
    by (simp add: length_concat comp_def)
  have "totalChars script = (\<Sum>c\<leftarrow>ch @ cb @ co. length (caption_text c))"
    by (simp add: len h b o totalChars_def)
  with g ne show "\<exists>caps. getTimedCaptions script d = Inr caps
      \<and> (\<forall>c \<in> set caps. caption_text c \<noteq> [] \<and> 1 \<le> length (caption_text c))
      \<and> totalChars script = (\<Sum>c\<leftarrow>caps. length (caption_text c))"
    by blast
qed

theorem chunks_trimmed_nonempty_witness:
  "js ''First, try hotteok.'' \<in> set (splitText (body scenario)) \<and>
   js ''First, try hotteok.'' \<noteq> [] \<and>
   \<not> is_ws (hd (js ''First, try hotteok.'')) \<and> \<not> is_ws (last (js ''First, try hotteok.''))"
proof -
  have m: "js ''First, try hotteok.'' \<in> set (splitText (body scenario))"
    by (simp add: scenario_body)
  with chunks_trimmed_nonempty [of "body scenario" scenario 12] show ?thesis by blast
qed

subsection \<open>White space only\<close>

lemma split_re_no_sep: "\<forall>c \<in> set s. \<not> sep c \<Longrightarrow> split_re sep cap acc s = [acc @ s]"
  by (induction s arbitrary: acc) simp_all

lemma trim_all_ws: "\<forall>c \<in> set s. is_ws c \<Longrightarrow> trim s = []"
proof -
  assume "\<forall>c \<in> set s. is_ws c"
  then have "dropWhile is_ws s = []" by simp
  then show ?thesis by (simp only: trim_def rev.simps dropWhile.simps)
qed

lemma splitText_all_ws:
  assumes "\<forall>c \<in> set t. is_ws c"
  shows "splitText t = []"
proof -
  from assms have "\<forall>c \<in> set t. \<not> is_term c" using is_term_not_ws by blast
  then have "split_re is_term False [] t = [t]" by (simp add: split_re_no_sep)
  with assms show ?thesis by (simp add: splitText_def sentences_def trim_all_ws)
qed

text \<open>
  Claim C7. When the three sections segment to no chunk, which is the case exactly when
  \<open>totalChars\<close> is 0 and in particular when every section is empty or white space only,
  \<open>getTimedCaptions\<close> returns the empty timeline. It never returns the outcome of a
  division by zero.
\<close>

theorem empty_script_empty_timeline:
  "(totalChars script = 0 \<longleftrightarrow>
      splitText (hook script) = [] \<and> splitText (body script) = [] \<and> splitText (outro script) = [])
   \<and> (totalChars script = 0 \<longrightarrow> getTimedCaptions script d = Inr [])
   \<and> ((\<forall>c \<in> set (hook script) \<union> set (body script) \<union> set (outro script). is_ws c)
        \<longrightarrow> totalChars script = 0)
   \<and> getTimedCaptions script d \<noteq> Inl NonFinite"
proof (intro conjI impI)
  show "totalChars script = 0 \<longleftrightarrow>
      splitText (hook script) = [] \<and> splitText (body script) = [] \<and> splitText (outro script) = []"
    using totalChars_zero [of script] by (auto simp: totalChars_def)
next
  assume "totalChars script = 0"
  then show "getTimedCaptions script d = Inr []"
    using totalChars_zero [of script] by (simp add: getTimedCaptions_empty)
next
  assume "\<forall>c \<in> set (hook script) \<union> set (body script) \<union> set (outro script). is_ws c"
  then show "totalChars script = 0"
    by (simp add: totalChars_def splitText_all_ws)
next
  from getTimedCaptions_shape [of script d] show "getTimedCaptions script d \<noteq> Inl NonFinite"
    by auto
qed

theorem empty_script_empty_timeline_witness:
  "list_all is_ws (hook blank_script @ body blank_script @ outro blank_script)
   \<and> totalChars blank_script = 0 \<and> getTimedCaptions blank_script 10 = Inr []"
proof -
  have l: "list_all is_ws (hook blank_script @ body blank_script @ outro blank_script)"
    by (simp add: blank_script_def js_def is_ws_def)
  then have w: "\<forall>c \<in> set (hook blank_script) \<union> set (body blank_script) \<union> set (outro blank_script).
      is_ws c"
    by (auto simp: list_all_iff)
  note th = empty_script_empty_timeline [of blank_script 10]
  from th w have z: "totalChars blank_script = 0" by fast
  with th have "getTimedCaptions blank_script 10 = Inr []" by fast
  with l z show ?thesis by (intro conjI)
qed

text \<open>
  Claim C2. For a script with \<open>totalChars > 0\<close> and a duration \<open>> 0\<close>,
  \<open>getTimedCaptions\<close> returns a timeline that is not empty, in which every caption has
  \<open>startTime < endTime\<close>, the start times are non-decreasing, every caption starts where
  the one before it ends, the first starts at 0 and the last ends at the duration.
\<close>

theorem timeline_contiguous:
  assumes "0 < d" and "0 < totalChars script"
  shows "\<exists>caps. getTimedCaptions script d = Inr caps \<and> caps \<noteq> []
     \<and> (\<forall>i < length caps. startTime (caps ! i) < endTime (caps ! i))
     \<and> sorted (map startTime caps)
     \<and> (\<forall>i. Suc i < length caps \<longrightarrow> startTime (caps ! Suc i) = endTime (caps ! i))
     \<and> startTime (hd caps) = 0
     \<and> endTime (last caps) = d"
proof -
  from getTimedCaptions_chained [OF assms] obtain caps where
    g: "getTimedCaptions script d = Inr caps" and c: "chained 0 caps d"
    by blast
  from c assms(1) have ne: "caps \<noteq> []" by (cases caps) auto
  have "\<forall>i < length caps. startTime (caps ! i) < endTime (caps ! i)"
    using c chained_nth_lt by blast
  moreover have "sorted (map startTime caps)" using c by (rule chained_sorted)
  moreover have "\<forall>i. Suc i < length caps \<longrightarrow> startTime (caps ! Suc i) = endTime (caps ! i)"
    using c chained_nth_next by blast
  moreover have "startTime (hd caps) = 0" using c ne by (rule chained_hd)
  moreover have "endTime (last caps) = d" using c ne by (rule chained_last)
  ultimately show ?thesis using g ne by blast
qed

theorem timeline_contiguous_witness:
  "(0::rat) < 12 \<and> 0 < totalChars scenario \<and>
   (\<exists>caps. getTimedCaptions scenario 12 = Inr caps \<and> caps \<noteq> []
     \<and> (\<forall>i < length caps. startTime (caps ! i) < endTime (caps ! i))
     \<and> sorted (map startTime caps)
     \<and> (\<forall>i. Suc i < length caps \<longrightarrow> startTime (caps ! Suc i) = endTime (caps ! i))
     \<and> startTime (hd caps) = 0
     \<and> endTime (last caps) = 12)"
proof -
  have d: "(0::rat) < 12" by simp
  have t: "0 < totalChars scenario" by (simp add: scenario_totalChars)
  from d t timeline_contiguous [OF d t] show ?thesis by blast
qed

subsection \<open>What the segmenter keeps of the text\<close>

lemma filter_dropWhile_ws:
  "\<forall>c. k c \<longrightarrow> \<not> is_ws c \<Longrightarrow> filter k (dropWhile is_ws s) = filter k s"
  by (induction s) auto

lemma filter_trim:
  assumes "\<forall>c. k c \<longrightarrow> \<not> is_ws c"
  shows "filter k (trim s) = filter k s"
proof -
  have "filter k (trim s) = rev (filter k (dropWhile is_ws (rev (dropWhile is_ws s))))"
    by (simp add: trim_def rev_filter)
  also have "\<dots> = rev (filter k (rev (dropWhile is_ws s)))"
    using assms by (simp add: filter_dropWhile_ws)
  also have "\<dots> = filter k (dropWhile is_ws s)" by (simp add: rev_filter)
  also have "\<dots> = filter k s" using assms by (rule filter_dropWhile_ws)
  finally show ?thesis .
qed

lemma filter_split_re:
  "\<forall>c. k c \<longrightarrow> \<not> is_ws c \<Longrightarrow> cap \<or> (\<forall>c. sep c \<longrightarrow> \<not> k c) \<Longrightarrow>
   filter k (concat (split_re sep cap acc s)) = filter k (acc @ s)"
proof (induction sep cap acc s rule: split_re.induct)
  case (1 sep cap acc)
  then show ?case by simp
next
  case (2 sep cap acc c cs)
  show ?case
  proof (cases "sep c \<and> cs \<noteq> [] \<and> is_ws (hd cs)")
    case True
    from "2.IH"(1) [OF True "2.prems"]
    have r: "filter k (concat (split_re sep cap [] (dropWhile is_ws cs))) = filter k cs"
      using "2.prems"(1) by (simp add: filter_dropWhile_ws)
    from True have u: "split_re sep cap acc (c # cs)
        = acc # (if cap then [[c]] else []) @ split_re sep cap [] (dropWhile is_ws cs)"
      by simp
    from True "2.prems"(2) have "cap \<or> \<not> k c" by blast
    then have "filter k (concat (if cap then [[c]] else [])) = filter k [c]" by auto
    with r show ?thesis by (simp only: u concat.simps filter_append append_assoc) simp
  next
    case False
    then have u: "split_re sep cap acc (c # cs) = split_re sep cap (acc @ [c]) cs"
      by (simp only: split_re.simps if_False)
    from "2.IH"(2) [OF False "2.prems"] show ?thesis by (simp only: u) simp
  qed
qed

lemma filter_concat_nonempty: "concat (filter (\<lambda>p. p \<noteq> []) xs) = concat xs"
  by (induction xs) auto

lemma filter_comma_parts:
  "\<forall>c. k c \<longrightarrow> \<not> is_ws c \<Longrightarrow> filter k (concat (comma_parts s)) = filter k s"
  using filter_split_re [of k True is_comma "[]" s]
  by (simp add: comma_parts_def filter_concat_nonempty)

lemma filter_pack_parts:
  "\<forall>c. k c \<longrightarrow> \<not> is_ws c \<Longrightarrow>
   filter k (concat (fst (pack_parts ps (chunks, cur))) @ snd (pack_parts ps (chunks, cur)))
     = filter k (concat chunks @ cur @ concat ps)"
proof (induction ps arbitrary: chunks cur)
  case Nil
  then show ?case by simp
next
  case (Cons p ps)
  show ?case
  proof (cases "length (cur @ p) > MAX_CHARS \<and> cur \<noteq> []")
    case True
    with Cons.IH [OF Cons.prems, of "chunks @ [trim cur]" p] Cons.prems
    show ?thesis by (simp add: filter_trim)
  next
    case False
    with Cons.IH [OF Cons.prems, of chunks "cur @ p"] show ?thesis by auto
  qed
qed

lemma filter_split_sentence:
  assumes "\<forall>c. k c \<longrightarrow> \<not> is_ws c"
  shows "filter k (concat (split_sentence chunks s)) = filter k (concat chunks @ s)"
proof (cases "length s \<le> MAX_CHARS")
  case True
  then show ?thesis by (simp add: split_sentence_def)
next
  case False
  obtain chunks' cur where pk: "pack_parts (comma_parts s) (chunks, []) = (chunks', cur)"
    by (cases "pack_parts (comma_parts s) (chunks, [])")
  from filter_pack_parts [OF assms, of "comma_parts s" chunks "[]"] pk
  have "filter k (concat chunks' @ cur) = filter k (concat chunks) @ filter k (concat (comma_parts s))"
    by simp
  also have "\<dots> = filter k (concat chunks @ s)"
    using assms by (simp add: filter_comma_parts)
  finally have e: "filter k (concat chunks' @ cur) = filter k (concat chunks @ s)" .
  show ?thesis
  proof (cases "cur = []")
    case True
    with False pk e show ?thesis by (simp add: split_sentence_def)
  next
    case c: False
    have "filter k (concat (chunks' @ [trim cur])) = filter k (concat chunks' @ cur)"
      using assms by (simp add: filter_trim)
    with False pk e c show ?thesis by (simp add: split_sentence_def)
  qed
qed

lemma filter_foldl_split_sentence:
  "\<forall>c. k c \<longrightarrow> \<not> is_ws c \<Longrightarrow>
   filter k (concat (foldl split_sentence chunks ss)) = filter k (concat chunks @ concat ss)"
proof (induction ss arbitrary: chunks)
  case Nil
  then show ?case by simp
next
  case (Cons s ss)
  from Cons.IH [OF Cons.prems, of "split_sentence chunks s"]
  show ?case using Cons.prems by (simp add: filter_split_sentence)
qed

lemma splitText_keeps_nonspace:
  "filter (\<lambda>c. \<not> is_ws c) (concat (splitText t))
     = filter (\<lambda>c. \<not> is_ws c) (concat (sentences t))"
  by (simp add: splitText_def filter_foldl_split_sentence)

lemma ink_not_ws: "\<forall>c. ink c \<longrightarrow> \<not> is_ws c"
  by (simp add: ink_def)

lemma filter_ink_sentence:
  "filter ink (trim s @ (if ends_with_term s then [] else js ''.'')) = filter ink s"
  by (simp add: filter_trim ink_not_ws js_dot ink_def is_term_def)

lemma ink_dot: "filter ink (js ''.'') = []"
  by (simp add: js_dot ink_def is_term_def)

lemma filter_ink_blank: "\<not> 0 < length (trim s) \<Longrightarrow> filter ink s = []"
proof -
  assume "\<not> 0 < length (trim s)"
  then have "filter ink (trim s) = []" by simp
  then show ?thesis by (simp add: filter_trim ink_not_ws)
qed

lemma filter_ink_sentences_aux:
  "filter ink (concat (map (\<lambda>s. trim s @ (if ends_with_term s then [] else js ''.''))
     (filter (\<lambda>s. 0 < length (trim s)) ps))) = filter ink (concat ps)"
proof (induction ps)
  case Nil
  then show ?case by simp
next
  case (Cons p ps)
  show ?case
  proof (cases "0 < length (trim p)")
    case True
    with Cons show ?thesis
      by (simp add: filter_trim ink_not_ws ink_dot del: length_greater_0_conv)
  next
    case False
    with Cons filter_ink_blank [OF False] show ?thesis by (simp del: length_greater_0_conv)
  qed
qed

lemma filter_ink_sentences: "filter ink (concat (sentences t)) = filter ink t"
proof -
  have "filter ink (concat (sentences t)) = filter ink (concat (split_re is_term False [] t))"
    unfolding sentences_def by (rule filter_ink_sentences_aux)
  also have "\<dots> = filter ink ([] @ t)"
    by (rule filter_split_re) (simp_all add: ink_def)
  finally show ?thesis by simp
qed

lemma splitText_keeps_ink: "filter ink (concat (splitText t)) = filter ink t"
proof -
  have "filter ink (concat (splitText t)) = filter ink (concat (sentences t))"
    by (simp add: splitText_def filter_foldl_split_sentence ink_not_ws)
  then show ?thesis by (simp add: filter_ink_sentences)
qed

lemma section_text_shape:
  assumes "\<forall>c \<in> set ch. caption_section c = Hook" "\<forall>c \<in> set cb. caption_section c = Body"
    "\<forall>c \<in> set co. caption_section c = Outro"
  shows "section_text Hook (ch @ cb @ co) = concat (map caption_text ch)"
    and "section_text Body (ch @ cb @ co) = concat (map caption_text cb)"
    and "section_text Outro (ch @ cb @ co) = concat (map caption_text co)"
proof -
  have keep: "\<And>sec xs. \<forall>c \<in> set xs. caption_section c = sec \<Longrightarrow>
      filter (\<lambda>c. caption_section c = sec) xs = xs"
    by simp
  have drop: "\<And>sec sec' xs. \<forall>c \<in> set xs. caption_section c = sec' \<Longrightarrow> sec' \<noteq> sec \<Longrightarrow>
      filter (\<lambda>c. caption_section c = sec) xs = []"
    by (simp add: filter_empty_conv)
  show "section_text Hook (ch @ cb @ co) = concat (map caption_text ch)"
    using keep [OF assms(1)] drop [OF assms(2), of Hook] drop [OF assms(3), of Hook]
    by (simp add: section_text_def)
  show "section_text Body (ch @ cb @ co) = concat (map caption_text cb)"
    using keep [OF assms(2)] drop [OF assms(1), of Body] drop [OF assms(3), of Body]
    by (simp add: section_text_def)
  show "section_text Outro (ch @ cb @ co) = concat (map caption_text co)"
    using keep [OF assms(3)] drop [OF assms(1), of Outro] drop [OF assms(2), of Outro]
    by (simp add: section_text_def)
qed

lemma exclaim_hook: "splitText (hook exclaim_script) = [js ''Wow.'', js ''Great.'']"
  by (simp add: exclaim_script_def seg_defs)

lemma exclaim_body: "splitText (body exclaim_script) = [js ''Hi.'']"
  by (simp add: exclaim_script_def seg_defs)

lemma exclaim_outro: "splitText (outro exclaim_script) = [js ''Bye.'']"
  by (simp add: exclaim_script_def seg_defs)

lemma exclaim_captions:
  "getTimedCaptions exclaim_script 17 =
     Inr [\<lparr>caption_text = js ''Wow.'', startTime = 0, endTime = 4, caption_section = Hook\<rparr>,
          \<lparr>caption_text = js ''Great.'', startTime = 4, endTime = 10, caption_section = Hook\<rparr>,
          \<lparr>caption_text = js ''Hi.'', startTime = 10, endTime = 13, caption_section = Body\<rparr>,
          \<lparr>caption_text = js ''Bye.'', startTime = 13, endTime = 17, caption_section = Outro\<rparr>]"
  by (simp add: getTimedCaptions_def totalChars_def exclaim_hook exclaim_body exclaim_outro
      js_div_def js_def)

lemma exclaim_sentences:
  "sentences (hook exclaim_script) = [js ''Wow.'', js ''Great.'']"
  "sentences (body exclaim_script) = [js ''Hi.'']"
  "sentences (outro exclaim_script) = [js ''Bye.'']"
  by (simp_all add: exclaim_script_def seg_defs)

text \<open>
  Claim C3, as stated, fails: the hook \<open>Wow! Great.\<close> has two sentences, and the captions
  of the hook concatenate to \<open>Wow.Great.\<close>, where the exclamation mark has become a full
  stop.
\<close>

theorem captions_text_counterexample:
  "sentences (hook exclaim_script) \<noteq> [] \<and> sentences (body exclaim_script) \<noteq> []
   \<and> sentences (outro exclaim_script) \<noteq> []
   \<and> map_sum id (section_text Hook) (getTimedCaptions exclaim_script 17) = Inr (js ''Wow.Great.'')
   \<and> filter (\<lambda>c. \<not> is_ws c) (js ''Wow.Great.'')
        \<noteq> filter (\<lambda>c. \<not> is_ws c) (hook exclaim_script)"
  by (simp add: exclaim_sentences exclaim_captions section_text_def)
     (simp add: exclaim_script_def js_def is_ws_def)

text \<open>
  Claim C3, amended. \<open>getTimedCaptions\<close> returns a timeline in which the captions of each
  section, concatenated in order, have the code units of that section's text that are
  neither white space nor a sentence terminator (\<open>.\<close>, \<open>!\<close>, \<open>?\<close>), unchanged and in the
  same order; and the chunks of a text have exactly the non-white-space code units of its
  normalised sentences. White space and sentence terminators are what the segmenter adds,
  removes or changes.
\<close>

theorem captions_keep_ink:
  "(\<exists>caps. getTimedCaptions script d = Inr caps
      \<and> filter ink (section_text Hook caps) = filter ink (hook script)
      \<and> filter ink (section_text Body caps) = filter ink (body script)
      \<and> filter ink (section_text Outro caps) = filter ink (outro script))
   \<and> filter (\<lambda>c. \<not> is_ws c) (concat (splitText t))
        = filter (\<lambda>c. \<not> is_ws c) (concat (sentences t))"
proof
  from getTimedCaptions_shape [of script d] obtain ch cb co where
    g: "getTimedCaptions script d = Inr (ch @ cb @ co)"
    and h: "map caption_text ch = splitText (hook script)"
    and hs: "\<forall>c \<in> set ch. caption_section c = Hook"
    and b: "map caption_text cb = splitText (body script)"
    and bs: "\<forall>c \<in> set cb. caption_section c = Body"
    and o: "map caption_text co = splitText (outro script)"
    and os: "\<forall>c \<in> set co. caption_section c = Outro"
    by blast
  have "filter ink (section_text Hook (ch @ cb @ co)) = filter ink (hook script)"
    by (simp only: section_text_shape [OF hs bs os] h splitText_keeps_ink)
  moreover have "filter ink (section_text Body (ch @ cb @ co)) = filter ink (body script)"
    by (simp only: section_text_shape [OF hs bs os] b splitText_keeps_ink)
  moreover have "filter ink (section_text Outro (ch @ cb @ co)) = filter ink (outro script)"
    by (simp only: section_text_shape [OF hs bs os] o splitText_keeps_ink)
  ultimately show "\<exists>caps. getTimedCaptions script d = Inr caps
      \<and> filter ink (section_text Hook caps) = filter ink (hook script)
      \<and> filter ink (section_text Body caps) = filter ink (body script)
      \<and> filter ink (section_text Outro caps) = filter ink (outro script)"
    using g by blast
next
  show "filter (\<lambda>c. \<not> is_ws c) (concat (splitText t))
        = filter (\<lambda>c. \<not> is_ws c) (concat (sentences t))"
    by (rule splitText_keeps_nonspace)
qed

theorem captions_keep_ink_witness:
  "\<exists>caps. getTimedCaptions exclaim_script 17 = Inr caps
     \<and> section_text Hook caps = js ''Wow.Great.''
     \<and> filter ink (js ''Wow.Great.'') = filter ink (js ''Wow! Great.'')"
proof -
  from captions_keep_ink [of exclaim_script 17 "[]"] obtain caps where
    g: "getTimedCaptions exclaim_script 17 = Inr caps"
    and k: "filter ink (section_text Hook caps) = filter ink (hook exclaim_script)"
    by blast
  from g have s: "section_text Hook caps = js ''Wow.Great.''"
    by (auto simp: exclaim_captions section_text_def js_def)
  have h: "hook exclaim_script = js ''Wow! Great.''" by (simp add: exclaim_script_def)
  from k have "filter ink (js ''Wow.Great.'') = filter ink (js ''Wow! Great.'')"
    by (simp only: s h)
  with g s show ?thesis by blast
qed

subsection \<open>The buffers that are flushed\<close>

lemma pack_parts_buffers:
  "pack_parts ps (chunks, cur) = (chunks', cur') \<Longrightarrow>
   chunks' @ (if cur' \<noteq> [] then [trim cur'] else []) = chunks @ map trim (pack_buffers ps cur)"
proof (induction ps arbitrary: chunks cur)
  case Nil
  then show ?case by auto
next
  case (Cons p ps)
  show ?case
  proof (cases "length (cur @ p) > MAX_CHARS \<and> cur \<noteq> []")
    case True
    with Cons.prems have "pack_parts ps (chunks @ [trim cur], p) = (chunks', cur')" by simp
    from Cons.IH [OF this] True show ?thesis by simp
  next
    case False
    with Cons.prems have "pack_parts ps (chunks, cur @ p) = (chunks', cur')" by auto
    from Cons.IH [OF this] False show ?thesis by auto
  qed
qed

lemma split_sentence_buffers:
  assumes "MAX_CHARS < length s"
  shows "split_sentence chunks s = chunks @ map trim (pack_buffers (comma_parts s) [])"
proof -
  obtain chunks' cur where pk: "pack_parts (comma_parts s) (chunks, []) = (chunks', cur)"
    by (cases "pack_parts (comma_parts s) (chunks, [])")
  from assms pk
  have "split_sentence chunks s = chunks' @ (if cur \<noteq> [] then [trim cur] else [])"
    by (simp add: split_sentence_def)
  with pack_parts_buffers [OF pk] show ?thesis by (simp only:)
qed

lemma pack_buffers_nonempty: "[] \<notin> set (pack_buffers ps cur)"
  by (induction ps arbitrary: cur) auto

lemma pack_buffers_concat: "concat (pack_buffers ps cur) = cur @ concat ps"
  by (induction ps arbitrary: cur) auto

lemma pack_buffers_long_buffer:
  "MAX_CHARS < length cur \<Longrightarrow> cur \<in> set (pack_buffers ps cur)"
  by (cases ps) auto

lemma pack_buffers_long_part:
  "p \<in> set ps \<Longrightarrow> MAX_CHARS < length p \<Longrightarrow> p \<in> set (pack_buffers ps cur)"
proof (induction ps arbitrary: cur)
  case Nil
  then show ?case by simp
next
  case (Cons q qs)
  show ?case
  proof (cases "length (cur @ q) > MAX_CHARS \<and> cur \<noteq> []")
    case True
    show ?thesis
    proof (cases "p = q")
      case e: True
      with Cons.prems(2) have "q \<in> set (pack_buffers qs q)"
        by (simp add: pack_buffers_long_buffer)
      with True e show ?thesis by simp
    next
      case False
      with Cons.prems have "p \<in> set qs" by simp
      from Cons.IH [OF this Cons.prems(2), of q] True show ?thesis by simp
    qed
  next
    case nf: False
    show ?thesis
    proof (cases "p = q")
      case e: True
      with Cons.prems(2) nf have "cur = []" by auto
      moreover from e Cons.prems(2) have "q \<in> set (pack_buffers qs q)"
        by (simp add: pack_buffers_long_buffer)
      ultimately show ?thesis using nf e by simp
    next
      case False
      with Cons.prems have "p \<in> set qs" by simp
      from Cons.IH [OF this Cons.prems(2), of "cur @ q"] nf show ?thesis by auto
    qed
  qed
qed

lemma trim_decomp: "\<exists>a b. s = a @ trim s @ b \<and> (\<forall>c \<in> set a \<union> set b. is_ws c)"
proof -
  let ?d = "dropWhile is_ws s"
  let ?a = "takeWhile is_ws s" and ?b = "rev (takeWhile is_ws (rev ?d))"
  have "rev (takeWhile is_ws (rev ?d) @ dropWhile is_ws (rev ?d)) = rev (rev ?d)"
    by (simp only: takeWhile_dropWhile_id)
  then have "rev (dropWhile is_ws (rev ?d)) @ ?b = ?d"
    by (simp only: rev_append rev_rev_ident)
  then have "?d = trim s @ ?b" by (simp only: trim_def)
  moreover have "s = ?a @ ?d" by simp
  ultimately have "s = ?a @ trim s @ ?b" by simp
  moreover have "\<forall>c \<in> set ?a \<union> set ?b. is_ws c"
    by (auto dest: set_takeWhileD)
  ultimately show ?thesis by blast
qed

lemma split_sentence_short: "length s \<le> MAX_CHARS \<Longrightarrow> split_sentence chunks s = chunks @ [s]"
  by (simp add: split_sentence_def)

lemma split_sentence_append: "split_sentence chunks s = chunks @ split_sentence [] s"
proof (cases "length s \<le> MAX_CHARS")
  case True
  then show ?thesis by (simp add: split_sentence_short)
next
  case False
  then have l: "MAX_CHARS < length s" by simp
  show ?thesis
    by (simp only: split_sentence_buffers [OF l, of chunks] split_sentence_buffers [OF l, of "[]"]
        append_Nil)
qed

lemma foldl_split_sentence:
  "foldl split_sentence chunks ss = chunks @ concat (map (split_sentence []) ss)"
proof (induction ss arbitrary: chunks)
  case Nil
  show ?case by simp
next
  case (Cons s ss)
  have "foldl split_sentence chunks (s # ss) = foldl split_sentence (split_sentence chunks s) ss"
    by simp
  also have "\<dots> = split_sentence chunks s @ concat (map (split_sentence []) ss)"
    by (rule Cons.IH)
  also have "\<dots> = (chunks @ split_sentence [] s) @ concat (map (split_sentence []) ss)"
    by (simp only: split_sentence_append [of chunks s])
  finally show ?case by simp
qed

lemma splitText_concat: "splitText t = concat (map (split_sentence []) (sentences t))"
  by (simp add: splitText_def foldl_split_sentence)

lemma split_re_length:
  "length (concat (split_re sep cap acc s)) \<le> length acc + length s"
proof (induction sep cap acc s rule: split_re.induct)
  case (1 sep cap acc)
  show ?case by simp
next
  case (2 sep cap acc c cs)
  show ?case
  proof (cases "sep c \<and> cs \<noteq> [] \<and> is_ws (hd cs)")
    case True
    then have u: "split_re sep cap acc (c # cs)
        = acc # (if cap then [[c]] else []) @ split_re sep cap [] (dropWhile is_ws cs)"
      by simp
    from "2.IH"(1) [OF True]
    have "length (concat (split_re sep cap [] (dropWhile is_ws cs))) \<le> length (dropWhile is_ws cs)"
      by simp
    also have "\<dots> \<le> length cs" by (rule length_dropWhile_le)
    finally have r: "length (concat (split_re sep cap [] (dropWhile is_ws cs))) \<le> length cs" .
    have "length (concat (acc # (if cap then [[c]] else [])
          @ split_re sep cap [] (dropWhile is_ws cs)))
        \<le> length acc + 1 + length (concat (split_re sep cap [] (dropWhile is_ws cs)))"
      by simp
    with r have "length (concat (acc # (if cap then [[c]] else [])
          @ split_re sep cap [] (dropWhile is_ws cs))) \<le> length acc + length (c # cs)"
      by simp
    then show ?thesis by (simp only: u)
  next
    case False
    then have u: "split_re sep cap acc (c # cs) = split_re sep cap (acc @ [c]) cs"
      by (simp only: split_re.simps if_False)
    from "2.IH"(2) [OF False] show ?thesis by (simp only: u) simp
  qed
qed

lemma length_le_concat: "p \<in> set xs \<Longrightarrow> length p \<le> length (concat xs)"
  by (induction xs) auto

lemma comma_part_length: "p \<in> set (comma_parts s) \<Longrightarrow> length p \<le> length s"
proof -
  assume "p \<in> set (comma_parts s)"
  then have "p \<in> set (split_re is_comma True [] s)" by (simp add: comma_parts_def)
  then have "length p \<le> length (concat (split_re is_comma True [] s))"
    by (rule length_le_concat)
  also have "\<dots> \<le> length ([]::jsstring) + length s" by (rule split_re_length)
  finally show ?thesis by simp
qed

lemma trim_of_ink:
  assumes "starts_ink p"
  shows "p = trim p @ rev (takeWhile is_ws (rev p))"
proof -
  from assms have d: "dropWhile is_ws p = p" by (cases p) (auto simp: starts_ink_def)
  have "rev (takeWhile is_ws (rev p) @ dropWhile is_ws (rev p)) = rev (rev p)"
    by (simp only: takeWhile_dropWhile_id)
  then have "rev (dropWhile is_ws (rev p)) @ rev (takeWhile is_ws (rev p)) = p"
    by (simp only: rev_append rev_rev_ident)
  then show ?thesis by (simp only: trim_def d)
qed

lemma sentence_chunks_in_splitText:
  "s \<in> set (sentences t) \<Longrightarrow> c \<in> set (split_sentence [] s) \<Longrightarrow> c \<in> set (splitText t)"
  by (auto simp: splitText_concat)

text \<open>
  Claim C8. The chunks of a text are the chunks of its sentences, in order, and none is
  empty. A sentence of at most \<open>MAX_CHARS\<close> code units is one chunk; for a longer one the
  chunks are the trimmed buffers, no buffer that is pushed is empty and the buffers
  together are all the comma-delimited parts. A part longer than \<open>MAX_CHARS\<close> is a buffer
  by itself, and \<open>splitText\<close> emits it as one chunk, which is the whole part but for white
  space at its end: a chunk can be longer than \<open>MAX_CHARS\<close>.
\<close>

theorem long_clause_emitted_whole:
  "splitText t = concat (map (split_sentence []) (sentences t))
   \<and> [] \<notin> set (splitText t)
   \<and> (\<forall>s \<in> set (sentences t).
        (length s \<le> MAX_CHARS \<longrightarrow> split_sentence [] s = [s])
        \<and> (MAX_CHARS < length s \<longrightarrow>
             split_sentence [] s = map trim (pack_buffers (comma_parts s) []))
        \<and> [] \<notin> set (pack_buffers (comma_parts s) [])
        \<and> concat (pack_buffers (comma_parts s) []) = concat (comma_parts s)
        \<and> (\<forall>p \<in> set (comma_parts s). MAX_CHARS < length p \<longrightarrow>
             MAX_CHARS < length s
             \<and> p \<in> set (pack_buffers (comma_parts s) [])
             \<and> trim p \<in> set (splitText t)
             \<and> (\<exists>b. p = trim p @ b \<and> (\<forall>c \<in> set b. is_ws c))))"
proof (intro conjI ballI impI)
  show "splitText t = concat (map (split_sentence []) (sentences t))"
    by (rule splitText_concat)
  show "[] \<notin> set (splitText t)" using splitText_nonempty [of "[]" "t"] by blast
next
  fix s assume s: "s \<in> set (sentences t)"
  show "split_sentence [] s = [s]" if "length s \<le> MAX_CHARS"
    using that by (simp add: split_sentence_short)
  show "split_sentence [] s = map trim (pack_buffers (comma_parts s) [])"
    if "MAX_CHARS < length s"
    using split_sentence_buffers [OF that, of "[]"] by simp
  show "[] \<notin> set (pack_buffers (comma_parts s) [])" by (rule pack_buffers_nonempty)
  show "concat (pack_buffers (comma_parts s) []) = concat (comma_parts s)"
    by (simp add: pack_buffers_concat)
  fix p assume p: "p \<in> set (comma_parts s)" and lp: "MAX_CHARS < length p"
  from comma_part_length [OF p] lp show ls: "MAX_CHARS < length s" by simp
  from p lp show m: "p \<in> set (pack_buffers (comma_parts s) [])"
    by (rule pack_buffers_long_part)
  from m have "trim p \<in> set (split_sentence [] s)"
    using split_sentence_buffers [OF ls, of "[]"] by simp
  with s show "trim p \<in> set (splitText t)" by (rule sentence_chunks_in_splitText)
  from s have "trimmed s" by (rule sentences_trimmed)
  then have "starts_ink s" by (rule trimmed_starts_ink)
  then have "starts_ink p" using p by (rule comma_parts_ink)
  then have "p = trim p @ rev (takeWhile is_ws (rev p))" by (rule trim_of_ink)
  moreover have "\<forall>c \<in> set (rev (takeWhile is_ws (rev p))). is_ws c"
    by (auto dest: set_takeWhileD)
  ultimately show "\<exists>b. p = trim p @ b \<and> (\<forall>c \<in> set b. is_ws c)" by blast
qed

lemma long_sentence_parts:
  "comma_parts long_sentence = [js ''This clause is far longer than the limit'', js '','', js ''ok.'']"
  by (simp add: long_sentence_def seg_defs)

lemma long_sentence_chunks:
  "split_sentence [] long_sentence = [js ''This clause is far longer than the limit'', js '',ok.'']"
  by (simp add: long_sentence_parts split_sentence_def)
     (simp add: long_sentence_def MAX_CHARS_def js_def trim_def is_ws_def)

lemma long_text_sentences: "sentences long_text = [js ''Hi.'', long_sentence, js ''Bye.'']"
  by (simp add: long_text_def long_sentence_def seg_defs)

lemma long_text_chunks:
  "splitText long_text
     = [js ''Hi.'', js ''This clause is far longer than the limit'', js '',ok.'', js ''Bye.'']"
proof -
  have "split_sentence [] (js ''Hi.'') = [js ''Hi.'']" "split_sentence [] (js ''Bye.'') = [js ''Bye.'']"
    by (simp_all add: split_sentence_def MAX_CHARS_def js_def)
  then show ?thesis
    by (simp add: splitText_concat long_text_sentences long_sentence_chunks)
qed

theorem long_clause_emitted_whole_witness:
  "long_sentence \<in> set (sentences long_text)
   \<and> js ''This clause is far longer than the limit'' \<in> set (comma_parts long_sentence)
   \<and> MAX_CHARS < length (js ''This clause is far longer than the limit'')
   \<and> trim (js ''This clause is far longer than the limit'') \<in> set (splitText long_text)
   \<and> splitText long_text
        = [js ''Hi.'', js ''This clause is far longer than the limit'', js '',ok.'', js ''Bye.'']"
proof -
  have s: "long_sentence \<in> set (sentences long_text)"
    by (simp add: long_text_sentences)
  have p: "js ''This clause is far longer than the limit'' \<in> set (comma_parts long_sentence)"
    by (simp add: long_sentence_parts)
  have lp: "MAX_CHARS < length (js ''This clause is far longer than the limit'')"
    by (simp add: MAX_CHARS_def js_def)
  from long_clause_emitted_whole [of long_text] s p lp
  have "trim (js ''This clause is far longer than the limit'') \<in> set (splitText long_text)"
    by blast
  with s p lp long_text_chunks show ?thesis by (intro conjI)
qed

subsection \<open>The body interval of a timeline\<close>

lemma getTimedCaptions_valid:
  assumes "0 < d" and "getTimedCaptions script d = Inr caps"
  shows "caps = [] \<or> chained 0 caps d"
proof (cases "totalChars script = 0")
  case True
  then have "getTimedCaptions script d = Inr []"
    using totalChars_zero [of script] by (simp add: getTimedCaptions_empty)
  with assms(2) show ?thesis by simp
next
  case False
  with getTimedCaptions_chained [OF assms(1), of script] assms(2) show ?thesis by auto
qed

lemma find_body_first:
  "chained a cs b \<Longrightarrow> c \<in> set cs \<Longrightarrow> caption_section c = Body \<Longrightarrow>
   \<exists>s. find (\<lambda>s. caption_section s = Body) cs = Some s \<and> a \<le> startTime s
     \<and> startTime s \<le> startTime c"
proof (induction cs arbitrary: a)
  case Nil
  then show ?case by simp
next
  case (Cons x cs)
  show ?case
  proof (cases "caption_section x = Body")
    case True
    from Cons.prems(1,2) have "startTime x \<le> startTime c"
      using chained_bounds [of a "x # cs" b c] by simp
    with True Cons.prems(1) show ?thesis by simp
  next
    case False
    with Cons.prems have "c \<in> set cs" by auto
    from Cons.prems(1) have t: "chained (endTime x) cs b" and lt: "a < endTime x" by auto
    from Cons.IH [OF t \<open>c \<in> set cs\<close> Cons.prems(3)] obtain s where
      "find (\<lambda>s. caption_section s = Body) cs = Some s" "endTime x \<le> startTime s"
      "startTime s \<le> startTime c" by blast
    with False lt show ?thesis by simp
  qed
qed

lemma find_body_last:
  "chained a cs b \<Longrightarrow> c \<in> set cs \<Longrightarrow> caption_section c = Body \<Longrightarrow>
   \<exists>s. find (\<lambda>s. caption_section s = Body) (rev cs) = Some s \<and> endTime c \<le> endTime s
     \<and> a < endTime s"
proof (induction cs arbitrary: b rule: rev_induct)
  case Nil
  then show ?case by simp
next
  case (snoc x cs)
  from snoc.prems(1) have t: "chained a cs (startTime x)" and lt: "startTime x < endTime x"
    and e: "endTime x = b"
    by (simp_all add: chained_snoc)
  show ?case
  proof (cases "caption_section x = Body")
    case True
    from snoc.prems(1,2) have "endTime c \<le> endTime x"
      using chained_bounds [of a "cs @ [x]" b c] e by simp
    moreover from t have "a \<le> startTime x" by (rule chained_le)
    ultimately show ?thesis using True lt by simp
  next
    case False
    with snoc.prems have "c \<in> set cs" by auto
    from snoc.IH [OF t this snoc.prems(3)] False show ?thesis by simp
  qed
qed

lemma body_interval:
  assumes "chained 0 cs d" and "c \<in> set cs" and "caption_section c = Body"
  shows "0 \<le> bodyS cs \<and> bodyS cs \<le> startTime c \<and> endTime c \<le> bodyE cs d
    \<and> bodyS cs < bodyE cs d"
proof -
  from find_body_first [OF assms] obtain s where
    s: "find (\<lambda>s. caption_section s = Body) cs = Some s" "0 \<le> startTime s"
      "startTime s \<le> startTime c" by blast
  from find_body_last [OF assms] obtain e where
    e: "find (\<lambda>s. caption_section s = Body) (rev cs) = Some e" "endTime c \<le> endTime e"
      "0 < endTime e" by blast
  from s have bs: "bodyS cs = startTime s" by (simp add: bodyS_def)
  from e have be: "bodyE cs d = endTime e" by (simp add: bodyE_def)
  from assms(1,2) have "startTime c < endTime c" using chained_bounds by blast
  with s e show ?thesis by (simp add: bs be)
qed

lemma find_interval_None:
  "chained a cs b \<Longrightarrow> a \<le> t \<Longrightarrow>
   find (\<lambda>s. t \<ge> startTime s \<and> t < endTime s) cs = None \<Longrightarrow> b \<le> t"
proof (induction cs arbitrary: a)
  case Nil
  then show ?case by simp
next
  case (Cons c cs)
  from Cons.prems have "endTime c \<le> t" by (auto split: if_splits)
  moreover from Cons.prems have "find (\<lambda>s. t \<ge> startTime s \<and> t < endTime s) cs = None"
    by (auto split: if_splits)
  moreover from Cons.prems(1) have "chained (endTime c) cs b" by simp
  ultimately show ?case using Cons.IH by blast
qed

lemma currentCap_started:
  assumes "chained 0 cs d" and "0 \<le> t" and "currentCap cs t = Some c"
  shows "c \<in> set cs \<and> startTime c \<le> t"
proof (cases "find (\<lambda>s. t \<ge> startTime s \<and> t < endTime s) cs")
  case None
  with assms(3) have ne: "cs \<noteq> []" and c: "c = last cs"
    by (auto simp: currentCap_def split: if_splits)
  from find_interval_None [OF assms(1,2) None] have "d \<le> t" .
  moreover from assms(1) ne have "endTime (last cs) = d" by (rule chained_last)
  moreover from assms(1) ne have "startTime (last cs) < endTime (last cs)"
    using chained_bounds [of 0 cs d "last cs"] by simp
  ultimately show ?thesis using ne c by simp
next
  case (Some x)
  with assms(3) have "x = c" by (simp add: currentCap_def)
  with Some show ?thesis by (auto simp: find_Some_iff)
qed

lemma prog_nonneg_body:
  assumes "chained 0 cs d" and "0 \<le> t" and "currentCap cs t = Some c"
    and "caption_section c = Body"
  shows "0 \<le> prog cs d t"
proof -
  from currentCap_started [OF assms(1-3)] have c: "c \<in> set cs" "startTime c \<le> t" by simp_all
  from body_interval [OF assms(1) c(1) assms(4)] c(2)
  have "bodyS cs \<le> t" "bodyS cs < bodyE cs d" by simp_all
  then show ?thesis by (simp add: prog_def)
qed

lemma prog_nonneg_empty: "0 < d \<Longrightarrow> 0 \<le> t \<Longrightarrow> 0 \<le> prog [] d t"
  by (simp add: prog_def bodyS_def bodyE_def)

lemma bodyImgIdx_bounds:
  assumes "0 \<le> prog cs d t" and "2 \<le> n"
  shows "0 \<le> bodyImgIdx cs d t n \<and> bodyImgIdx cs d t n \<le> int n - 2"
proof -
  define x where "x = \<lfloor>prog cs d t * of_int (int n - 2)\<rfloor>"
  from assms have "0 \<le> prog cs d t * of_int (int n - 2)" by simp
  then have x: "0 \<le> x" by (simp add: x_def)
  have "bodyImgIdx cs d t n = 1 + min x (int n - 3)"
    by (simp add: bodyImgIdx_def Let_def x_def)
  with x assms(2) show ?thesis by (simp add: min_def)
qed

lemma currentImgIdx_bounds:
  assumes "cs = [] \<or> chained 0 cs d" and "0 < d" and "0 \<le> t" and "2 \<le> n"
  shows "0 \<le> currentImgIdx cs d t n \<and> currentImgIdx cs d t n \<le> int n - 1"
proof (cases "currentCap cs t")
  case None
  then have "cs = []" by (auto simp: currentCap_def split: option.splits if_splits)
  with assms have "0 \<le> prog cs d t" by (simp add: prog_nonneg_empty)
  from bodyImgIdx_bounds [OF this assms(4)] None show ?thesis by (simp add: currentImgIdx_def)
next
  case (Some c)
  then have ne: "cs \<noteq> []" by (auto simp: currentCap_def)
  with assms(1) have ch: "chained 0 cs d" by simp
  show ?thesis
  proof (cases "caption_section c")
    case Hook
    with Some assms(4) show ?thesis by (simp add: currentImgIdx_def)
  next
    case Body
    from prog_nonneg_body [OF ch assms(3) Some Body] have "0 \<le> prog cs d t" .
    from bodyImgIdx_bounds [OF this assms(4)] Some Body show ?thesis
      by (simp add: currentImgIdx_def)
  next
    case Outro
    with Some assms(4) show ?thesis by (simp add: currentImgIdx_def)
  qed
qed

text \<open>
  Claim C1, as stated, fails for one scene: in the scenario of the specification, at
  \<open>t = 5\<close> a body caption is current and with a single image the index is \<open>-1\<close>, which is
  not in \<open>[0, 0]\<close>.
\<close>

theorem image_index_counterexample:
  "(0::rat) \<le> 5 \<and> (5::rat) \<le> 12 \<and> (1::nat) \<ge> 1
   \<and> render_index scenario 12 5 1 = Inr (- 1)
   \<and> \<not> (0 \<le> (- 1 :: int) \<and> (- 1 :: int) \<le> int 1 - 1)"
  by (simp add: render_index_def scenario_captions currentImgIdx_def currentCap_def
      bodyImgIdx_def prog_def bodyS_def bodyE_def)

text \<open>
  Claim C1, amended. For a positive duration, the timeline that \<open>getTimedCaptions\<close>
  returns and a playback time \<open>t \<ge> 0\<close>: with two or more images the selected index is in
  \<open>[0, images - 1]\<close>; with one image it is 0 when the current caption is of the hook or of
  the outro.
\<close>

theorem image_index_in_range:
  assumes "0 < d" and "0 \<le> t"
  shows "\<exists>caps. getTimedCaptions script d = Inr caps
     \<and> render_index script d t n = Inr (currentImgIdx caps d t n)
     \<and> (2 \<le> n \<longrightarrow> 0 \<le> currentImgIdx caps d t n \<and> currentImgIdx caps d t n \<le> int n - 1)
     \<and> (n = 1 \<longrightarrow> (\<exists>c. currentCap caps t = Some c \<and> caption_section c \<noteq> Body) \<longrightarrow>
          currentImgIdx caps d t n = 0)"
proof -
  from getTimedCaptions_shape [of script d] obtain caps where
    g: "getTimedCaptions script d = Inr caps" by blast
  from getTimedCaptions_valid [OF assms(1) g] have v: "caps = [] \<or> chained 0 caps d" .
  have r: "render_index script d t n = Inr (currentImgIdx caps d t n)"
    by (simp add: render_index_def g)
  have two: "2 \<le> n \<longrightarrow> 0 \<le> currentImgIdx caps d t n \<and> currentImgIdx caps d t n \<le> int n - 1"
    using currentImgIdx_bounds [OF v assms] by blast
  have one: "n = 1 \<longrightarrow> (\<exists>c. currentCap caps t = Some c \<and> caption_section c \<noteq> Body) \<longrightarrow>
      currentImgIdx caps d t n = 0"
  proof (intro impI)
    assume n: "n = 1" and "\<exists>c. currentCap caps t = Some c \<and> caption_section c \<noteq> Body"
    then obtain c where "currentCap caps t = Some c" "caption_section c \<noteq> Body" by blast
    with n show "currentImgIdx caps d t n = 0"
      by (cases "caption_section c") (simp_all add: currentImgIdx_def)
  qed
  from g r two one show ?thesis by blast
qed

theorem image_index_in_range_witness:
  "(0::rat) < 12 \<and> (0::rat) \<le> 8 \<and> (2::nat) \<le> 5
   \<and> render_index scenario 12 8 5 = Inr 3 \<and> (0::int) \<le> 3 \<and> (3::int) \<le> int 5 - 1"
proof -
  have d: "(0::rat) < 12" and t: "(0::rat) \<le> 8" by simp_all
  have e: "render_index scenario 12 8 5 = Inr 3"
    by (simp add: render_index_def scenario_captions currentImgIdx_def currentCap_def
        bodyImgIdx_def prog_def bodyS_def bodyE_def floor_eq_iff)
  from image_index_in_range [OF d t, of scenario 5] obtain caps where
    "render_index scenario 12 8 5 = Inr (currentImgIdx caps 12 8 5)"
    "0 \<le> currentImgIdx caps 12 8 5 \<and> currentImgIdx caps 12 8 5 \<le> int 5 - 1"
    by auto
  with e show ?thesis by simp
qed

lemma body_bounds_apart:
  assumes "0 < d" and "getTimedCaptions script d = Inr caps"
  shows "bodyS caps < bodyE caps d"
proof (cases "find (\<lambda>s. caption_section s = Body) caps")
  case None
  then have n: "\<forall>c \<in> set caps. caption_section c \<noteq> Body" by (simp add: find_None_iff)
  then have "find (\<lambda>s. caption_section s = Body) (rev caps) = None" by (simp add: find_None_iff)
  with None assms(1) show ?thesis by (simp add: bodyS_def bodyE_def)
next
  case (Some c)
  then have c: "c \<in> set caps" "caption_section c = Body" by (auto simp: find_Some_iff)
  then have "caps \<noteq> []" by auto
  with getTimedCaptions_valid [OF assms] have "chained 0 caps d" by simp
  from body_interval [OF this c] show ?thesis by simp
qed

subsection \<open>The capture invariant\<close>

lemma exportVideo_rejected:
  "\<not> hasCanvas s \<or> isExporting s \<Longrightarrow> exportVideo_actions s = [] \<and> exportVideo s = s"
  by (auto simp: exportVideo_def exportVideo_actions_def)

lemma exportVideo_audio:
  "hasCanvas s \<Longrightarrow> \<not> isExporting s \<Longrightarrow> hasAudio s \<Longrightarrow>
   exportVideo s = s\<lparr>isExporting := True, isPlaying := True, audioTime := 0,
     recorders := recorders s @ [Recording], onended := Some (length (recorders s))\<rparr>"
  by (simp add: exportVideo_def exportVideo_actions_def Let_def)

lemma exportVideo_no_audio:
  "hasCanvas s \<Longrightarrow> \<not> isExporting s \<Longrightarrow> \<not> hasAudio s \<Longrightarrow>
   exportVideo s = s\<lparr>isExporting := True, isPlaying := False,
     recorders := recorders s @ [Recording], timers := timers s @ [length (recorders s)]\<rparr>"
  by (simp add: exportVideo_def exportVideo_actions_def Let_def)

lemma run_stop:
  "run [RecorderStop r] s =
     (if r < length (recorders s) \<and> recorders s ! r = Recording
      then s\<lparr>recorders := (recorders s)[r := Stopping]\<rparr> else s)"
  by simp

lemma audioEnded_eq:
  "audioEnded s =
     (case onended s of
        None \<Rightarrow> s\<lparr>isPlaying := False\<rparr>
      | Some r \<Rightarrow>
          if r < length (recorders s) \<and> recorders s ! r = Recording
          then s\<lparr>isPlaying := False, recorders := (recorders s)[r := Stopping], onended := None\<rparr>
          else s\<lparr>isPlaying := False\<rparr>)"
  by (simp add: audioEnded_def Let_def split: option.splits)

lemma only_last_in_flight:
  assumes "\<forall>x \<in> set (butlast xs). x = Stopped" and "r < length xs" and "xs ! r \<noteq> Stopped"
  shows "xs \<noteq> [] \<and> xs[r := v] = butlast xs @ [v]"
proof -
  from assms(2) have ne: "xs \<noteq> []" by auto
  have "r = length xs - 1"
  proof (rule ccontr)
    assume "r \<noteq> length xs - 1"
    with assms(2) have lt: "r < length (butlast xs)" by simp
    then have "butlast xs ! r \<in> set (butlast xs)" by (rule nth_mem)
    with assms(1) have "butlast xs ! r = Stopped" by blast
    with lt assms(3) show False by (simp add: nth_butlast)
  qed
  moreover from ne have "xs = butlast xs @ [last xs]" by simp
  ultimately have "xs[r := v] = (butlast xs @ [last xs])[length (butlast xs) := v]" by simp
  then show ?thesis using ne by (simp only: list_update_length) simp
qed

lemma capture_inv_stop:
  assumes "capture_inv s" and "r < length (recorders s)" and "recorders s ! r = Recording"
  shows "capture_inv (s\<lparr>recorders := (recorders s)[r := Stopping]\<rparr>)"
    and "isExporting s"
proof -
  from assms(2,3) have m: "Recording \<in> set (recorders s)" using nth_mem by fastforce
  with assms(1) show e: "isExporting s" by (auto simp: capture_inv_def split: if_splits)
  with assms(1) have b: "\<forall>x \<in> set (butlast (recorders s)). x = Stopped"
    by (simp add: capture_inv_def)
  from assms(3) have "recorders s ! r \<noteq> Stopped" by simp
  from only_last_in_flight [OF b assms(2) this, of Stopping]
  have "(recorders s)[r := Stopping] = butlast (recorders s) @ [Stopping]" by simp
  with e b show "capture_inv (s\<lparr>recorders := (recorders s)[r := Stopping]\<rparr>)"
    by (simp add: capture_inv_def)
qed

lemma capture_inv_cong:
  "isExporting s' = isExporting s \<Longrightarrow> recorders s' = recorders s \<Longrightarrow>
   capture_inv s' = capture_inv s"
  by (simp add: capture_inv_def)

lemma capture_inv_playing: "capture_inv (s\<lparr>isPlaying := b\<rparr>) = capture_inv s"
  by (simp add: capture_inv_def)

lemma capture_inv_timers: "capture_inv (s\<lparr>timers := ts\<rparr>) = capture_inv s"
  by (simp add: capture_inv_def)

lemma capture_inv_onended: "capture_inv (s\<lparr>onended := h\<rparr>) = capture_inv s"
  by (simp add: capture_inv_def)

lemma capture_inv_clock: "capture_inv (s\<lparr>audioTime := t\<rparr>) = capture_inv s"
  by (simp add: capture_inv_def)

lemma capture_inv_exportVideo: "capture_inv s \<Longrightarrow> capture_inv (exportVideo s)"
proof -
  assume i: "capture_inv s"
  show ?thesis
  proof (cases "\<not> hasCanvas s \<or> isExporting s")
    case True
    with i show ?thesis by (simp add: exportVideo_rejected)
  next
    case False
    with i have "\<forall>r \<in> set (recorders s). r = Stopped" by (simp add: capture_inv_def)
    with False show ?thesis
      by (cases "hasAudio s") (simp_all add: exportVideo_audio exportVideo_no_audio capture_inv_def)
  qed
qed

lemma capture_inv_audioEnded: "capture_inv s \<Longrightarrow> capture_inv (audioEnded s)"
proof -
  assume i: "capture_inv s"
  show ?thesis
  proof (cases "onended s")
    case None
    with i show ?thesis by (simp add: audioEnded_eq capture_inv_playing)
  next
    case (Some r)
    show ?thesis
    proof (cases "r < length (recorders s) \<and> recorders s ! r = Recording")
      case True
      then have "capture_inv (s\<lparr>recorders := (recorders s)[r := Stopping]\<rparr>)"
        using capture_inv_stop(1) [OF i] by blast
      moreover have "capture_inv (s\<lparr>isPlaying := False,
          recorders := (recorders s)[r := Stopping], onended := None\<rparr>)
        = capture_inv (s\<lparr>recorders := (recorders s)[r := Stopping]\<rparr>)"
        by (rule capture_inv_cong) simp_all
      ultimately have "capture_inv (s\<lparr>isPlaying := False,
          recorders := (recorders s)[r := Stopping], onended := None\<rparr>)"
        by simp
      with Some True show ?thesis by (simp add: audioEnded_eq)
    next
      case False
      with Some i show ?thesis by (auto simp: audioEnded_eq capture_inv_playing)
    qed
  qed
qed

lemma capture_inv_timeoutFired: "capture_inv s \<Longrightarrow> capture_inv (timeoutFired r s)"
proof -
  assume i: "capture_inv s"
  let ?s = "s\<lparr>timers := remove1 r (timers s)\<rparr>"
  from i have j: "capture_inv ?s" by (simp add: capture_inv_timers)
  show ?thesis
  proof (cases "r < length (recorders ?s) \<and> recorders ?s ! r = Recording")
    case True
    then have "capture_inv (?s\<lparr>recorders := (recorders ?s)[r := Stopping]\<rparr>)"
      using capture_inv_stop(1) [OF j] by blast
    with True show ?thesis by (simp add: timeoutFired_def)
  next
    case False
    with j show ?thesis by (auto simp: timeoutFired_def)
  qed
qed

lemma capture_inv_recorderOnstop:
  assumes "capture_inv s" and "r < length (recorders s)" and "recorders s ! r = Stopping"
  shows "capture_inv (recorderOnstop r s)"
proof -
  from assms(2,3) have "Stopping \<in> set (recorders s)" using nth_mem by fastforce
  with assms(1) have e: "isExporting s" by (auto simp: capture_inv_def split: if_splits)
  with assms(1) have b: "\<forall>x \<in> set (butlast (recorders s)). x = Stopped"
    by (simp add: capture_inv_def)
  from assms(3) have "recorders s ! r \<noteq> Stopped" by simp
  from only_last_in_flight [OF b assms(2) this, of Stopped]
  have "(recorders s)[r := Stopped] = butlast (recorders s) @ [Stopped]" by simp
  with b show ?thesis by (simp add: recorderOnstop_def capture_inv_def)
qed

lemma reachable_capture_inv: "reachable s \<Longrightarrow> capture_inv s"
proof (induction rule: reachable.induct)
  case (r_init canvas audio)
  show ?case by (simp add: capture_inv_def initial_def)
next
  case (r_export s)
  then show ?case by (simp add: capture_inv_exportVideo)
next
  case (r_toggle s)
  then show ?case by (simp add: handleTogglePlay_def capture_inv_playing)
next
  case (r_clock s t)
  then show ?case by (simp add: capture_inv_clock)
next
  case (r_ended s)
  then show ?case by (simp add: capture_inv_audioEnded)
next
  case (r_timeout s r)
  then show ?case by (simp add: capture_inv_timeoutFired)
next
  case (r_onstop s r)
  then show ?case by (simp add: capture_inv_recorderOnstop)
qed

lemma capture_inv_in_flight:
  assumes "capture_inv s"
  shows "in_flight s = (if isExporting s then 1 else 0)"
proof (cases "isExporting s")
  case True
  with assms have ne: "recorders s \<noteq> []"
    and b: "\<forall>r \<in> set (butlast (recorders s)). r = Stopped"
    and l: "last (recorders s) \<noteq> Stopped"
    by (auto simp: capture_inv_def)
  from ne have "recorders s = butlast (recorders s) @ [last (recorders s)]" by simp
  then have "in_flight s
      = length (filter (\<lambda>r. r \<noteq> Stopped) (butlast (recorders s) @ [last (recorders s)]))"
    by (simp only: in_flight_def)
  also from b have "filter (\<lambda>r. r \<noteq> Stopped) (butlast (recorders s)) = []"
    by (simp add: filter_empty_conv)
  then have "length (filter (\<lambda>r. r \<noteq> Stopped) (butlast (recorders s) @ [last (recorders s)])) = 1"
    using l by simp
  finally show ?thesis using True by simp
next
  case False
  with assms have "filter (\<lambda>r. r \<noteq> Stopped) (recorders s) = []"
    by (simp add: capture_inv_def filter_empty_conv)
  with False show ?thesis by (simp add: in_flight_def)
qed

text \<open>
  Claim C6. In every state the component can reach at most one capture is in flight; and
  while one is in flight, an export request is rejected: \<open>exportVideo\<close> executes no
  statement, starts no recorder and leaves the state, and with it the capture in
  flight, as it is.
\<close>

theorem one_capture_in_flight:
  assumes "reachable s"
  shows "in_flight s \<le> 1
     \<and> (0 < in_flight s \<longrightarrow>
          isExporting s \<and> exportVideo_actions s = [] \<and> exportVideo s = s)"
proof -
  from assms have "capture_inv s" by (rule reachable_capture_inv)
  then have f: "in_flight s = (if isExporting s then 1 else 0)" by (rule capture_inv_in_flight)
  then have "in_flight s \<le> 1" by simp
  moreover have "isExporting s \<and> exportVideo_actions s = [] \<and> exportVideo s = s"
    if "0 < in_flight s"
  proof -
    from that f have "isExporting s" by (simp split: if_splits)
    then show ?thesis by (simp add: exportVideo_rejected)
  qed
  ultimately show ?thesis by blast
qed

lemma export_initial_audio:
  "exportVideo (initial True True) =
     \<lparr>hasCanvas = True, hasAudio = True, isExporting = True, isPlaying = True, audioTime = 0,
      recorders = [Recording], onended = Some 0, timers = []\<rparr>"
  by (simp add: exportVideo_audio initial_def)

theorem one_capture_in_flight_witness:
  "reachable (exportVideo (initial True True))
   \<and> in_flight (exportVideo (initial True True)) = 1
   \<and> exportVideo (exportVideo (initial True True)) = exportVideo (initial True True)"
proof -
  have r: "reachable (exportVideo (initial True True))"
    by (intro reachable.intros)
  have f: "in_flight (exportVideo (initial True True)) = 1"
    by (simp add: export_initial_audio in_flight_def)
  with one_capture_in_flight [OF r] r show ?thesis by simp
qed

subsection \<open>The order of recording and playing\<close>















end
